theory Spec2Isabelle
  imports Main "HOL-Library.AList" "HOL-Library.Sublist"
begin

section \<open>Deadline timer: \<^verbatim>\<open>Holdoff\<close>\<close>

text \<open>
  Source: \<^verbatim>\<open>src/web/lib/service.py\<close>.

  A clock reading (\<^verbatim>\<open>datetime.now()\<close>) is an integer number of microseconds, the
  resolution of \<^verbatim>\<open>datetime\<close>; a delay is a number of microseconds too. The code calls
  \<^verbatim>\<open>total_seconds()\<close> on the difference of two readings and only ever compares the result
  with zero, so the integer difference stands for it. Every function that reads the clock
  takes the reading as an argument.
\<close>

record holdoff =
  deadline :: int
  event :: bool

text \<open>\<^verbatim>\<open>Holdoff.__init__\<close> and \<^verbatim>\<open>WaitableHoldoff.__init__\<close>: the deadline is now, the
  event is clear.\<close>

definition new_holdoff :: "int \<Rightarrow> holdoff" where
  "new_holdoff now = \<lparr>deadline = now, event = False\<rparr>"

text \<open>\<^verbatim>\<open>reset(delay=None)\<close>: \<^verbatim>\<open>if delay:\<close> is false for \<^verbatim>\<open>None\<close> and for zero.\<close>

definition reset :: "int option \<Rightarrow> int \<Rightarrow> holdoff \<Rightarrow> holdoff" where
  "reset delay now h =
     (case delay of
        None \<Rightarrow> h\<lparr>deadline := now\<rparr>
      | Some d \<Rightarrow> if d \<noteq> 0 then h\<lparr>deadline := now + d\<rparr> else h\<lparr>deadline := now\<rparr>)"

definition remaining :: "holdoff \<Rightarrow> int \<Rightarrow> int" where
  "remaining h now = deadline h - now"

definition passed :: "holdoff \<Rightarrow> int \<Rightarrow> bool" where
  "passed h now = (remaining h now < 0)"

section \<open>Interruptible timed wait: \<^verbatim>\<open>WaitableHoldoff\<close>\<close>

text \<open>
  What happens to a \<^verbatim>\<open>threading.Event\<close> while \<^verbatim>\<open>Event.wait(timeout)\<close> blocks is decided
  by the other threads: either the timeout expires, or some thread calls \<^verbatim>\<open>signal()\<close>,
  at the clock reading given.
\<close>

datatype wake = Timeout | SignalAt int

text \<open>\<^verbatim>\<open>Event.wait(timeout)\<close>: true at once when the flag is already set, otherwise true
  iff the flag is set before the timeout expires.\<close>

definition event_wait :: "bool \<Rightarrow> wake \<Rightarrow> bool" where
  "event_wait flag w = (flag \<or> w \<noteq> Timeout)"

text \<open>
  \<^verbatim>\<open>WaitableHoldoff.wait\<close>. \<open>now\<close> is the clock read by \<^verbatim>\<open>self.remaining\<close> on entry,
  \<open>w\<close> is what happens while \<^verbatim>\<open>Event.wait\<close> blocks, \<open>chk\<close> is the clock read by
  \<^verbatim>\<open>self.passed\<close> after a wake-up. The result is the holdoff as \<^verbatim>\<open>wait\<close> leaves it and
  the value returned.
\<close>

definition wait :: "int \<Rightarrow> wake \<Rightarrow> int \<Rightarrow> holdoff \<Rightarrow> holdoff \<times> bool" where
  "wait now w chk h =
     (let rem = remaining h now in
      if rem < 0 then (h\<lparr>event := False\<rparr>, True)
      else if event_wait (event h) w then (h\<lparr>event := False\<rparr>, passed h chk)
      else (h, True))"

definition signal :: "holdoff \<Rightarrow> holdoff" where
  "signal h = h\<lparr>event := True\<rparr>"

text \<open>
  The readings of one call are taken in program order, and a signal that wakes the call
  was sent after the call began and before the clock is read again.
\<close>

definition readings_ordered :: "int \<Rightarrow> wake \<Rightarrow> int \<Rightarrow> bool" where
  "readings_ordered now w chk =
     (now \<le> chk \<and> (case w of Timeout \<Rightarrow> True | SignalAt ts \<Rightarrow> now \<le> ts \<and> ts \<le> chk))"

text \<open>A call returns through the signal path when the deadline has not passed on entry
  and \<^verbatim>\<open>Event.wait\<close> reports the flag set.\<close>

definition via_signal :: "int \<Rightarrow> wake \<Rightarrow> holdoff \<Rightarrow> bool" where
  "via_signal now w h = (\<not> remaining h now < 0 \<and> event_wait (event h) w)"

text \<open>
  The clock reading at which the signal that a call consumes was set. The flag keeps no
  record of it: when the flag is already set on entry it is any reading up to that of the
  call; otherwise it is the reading of the wake-up.
\<close>

definition signalled_at :: "int \<Rightarrow> wake \<Rightarrow> holdoff \<Rightarrow> int \<Rightarrow> bool" where
  "signalled_at now w h ts = (if event h then ts \<le> now else w = SignalAt ts)"

text \<open>
  A holdoff used by one thread while others signal it: a sequence of \<^verbatim>\<open>reset\<close>,
  \<^verbatim>\<open>signal\<close> and \<^verbatim>\<open>wait\<close> calls, with the values the \<^verbatim>\<open>wait\<close> calls return.
\<close>

datatype hop = Reset "int option" int | Signal | Wait int wake int

fun run_hops :: "hop list \<Rightarrow> holdoff \<Rightarrow> bool list \<times> holdoff" where
  "run_hops [] h = ([], h)"
| "run_hops (Reset delay now # ops) h = run_hops ops (reset delay now h)"
| "run_hops (Signal # ops) h = run_hops ops (signal h)"
| "run_hops (Wait now w chk # ops) h =
     (let (h', r) = wait now w chk h; (rs, h'') = run_hops ops h' in (r # rs, h''))"

text \<open>An operation that delivers no signal: it is not \<^verbatim>\<open>signal()\<close>, and if it is a
  \<^verbatim>\<open>wait\<close>, nobody wakes it.\<close>

fun unsignalled :: "hop \<Rightarrow> bool" where
  "unsignalled (Reset delay now) = True"
| "unsignalled Signal = False"
| "unsignalled (Wait now w chk) = (w = Timeout)"

section \<open>Exceptions\<close>

text \<open>
  The exceptions the code raises or tests for, \<open>OtherException\<close> for any other instance
  of \<^verbatim>\<open>Exception\<close>, and the exceptions of Python that are not instances of \<^verbatim>\<open>Exception\<close>:
  \<^verbatim>\<open>SystemExit\<close>, \<^verbatim>\<open>KeyboardInterrupt\<close>, \<^verbatim>\<open>GeneratorExit\<close>, and \<open>OtherBaseException\<close> for
  any other class that derives from \<^verbatim>\<open>BaseException\<close> only. \<^verbatim>\<open>ServiceStoppedError\<close>
  derives from \<^verbatim>\<open>ServiceError\<close>, \<^verbatim>\<open>ServiceRestartSignal\<close> from \<^verbatim>\<open>ServiceSignal\<close>, and these
  from \<^verbatim>\<open>Exception\<close>.
\<close>

datatype exn =
    KeyError | AssertionError | TimeoutError
  | ServiceError | ServiceStoppedError
  | ServiceSignal | ServiceRestartSignal
  | OtherException
  | SystemExit | KeyboardInterrupt | GeneratorExit | OtherBaseException

text \<open>\<^verbatim>\<open>isinstance(E, Exception)\<close>, the test of \<^verbatim>\<open>except Exception\<close>.\<close>

fun is_Exception :: "exn \<Rightarrow> bool" where
  "is_Exception KeyError = True"
| "is_Exception AssertionError = True"
| "is_Exception TimeoutError = True"
| "is_Exception ServiceError = True"
| "is_Exception ServiceStoppedError = True"
| "is_Exception ServiceSignal = True"
| "is_Exception ServiceRestartSignal = True"
| "is_Exception OtherException = True"
| "is_Exception SystemExit = False"
| "is_Exception KeyboardInterrupt = False"
| "is_Exception GeneratorExit = False"
| "is_Exception OtherBaseException = False"

text \<open>\<^verbatim>\<open>isinstance(E, ServiceError)\<close>, the test of \<^verbatim>\<open>except ServiceError\<close>.\<close>

fun is_ServiceError :: "exn \<Rightarrow> bool" where
  "is_ServiceError ServiceError = True"
| "is_ServiceError ServiceStoppedError = True"
| "is_ServiceError E = False"

text \<open>\<^verbatim>\<open>isinstance(E, ServiceRestartSignal)\<close>, the test of
  \<^verbatim>\<open>except ServiceRestartSignal\<close>.\<close>

fun is_ServiceRestartSignal :: "exn \<Rightarrow> bool" where
  "is_ServiceRestartSignal ServiceRestartSignal = True"
| "is_ServiceRestartSignal E = False"

text \<open>How a call ends: it returns a value, it raises, or it has not come back when the
  observation ends (it is still blocked or still polling).\<close>

datatype 'a outcome = Return 'a | Raise exn | Pending

section \<open>The service and its state machine\<close>

datatype runstate = Starting | Running | Idle | Stopping | Stopped

text \<open>
  The fields of \<^verbatim>\<open>Service\<close> that the state machine and the manager read and write:
  \<open>shutdown_flag\<close> is \<^verbatim>\<open>_shutdown\<close>, \<open>evt\<close> is \<^verbatim>\<open>_event\<close>. The observer list, \<^verbatim>\<open>app\<close>,
  \<^verbatim>\<open>daemon\<close> and the unused \<^verbatim>\<open>deadline\<close> attribute are left out.
\<close>

record service =
  running :: bool
  state :: runstate
  wanted :: bool
  shutdown_flag :: bool
  evt :: holdoff

definition new_service :: "int \<Rightarrow> service" where
  "new_service now =
     \<lparr>running = True, state = Stopped, wanted = False, shutdown_flag = False,
      evt = new_holdoff now\<rparr>"

definition start :: "service \<Rightarrow> service" where
  "start s = s\<lparr>wanted := True, evt := signal (evt s)\<rparr>"

definition stop :: "service \<Rightarrow> service" where
  "stop s = s\<lparr>wanted := False, shutdown_flag := True, evt := signal (evt s)\<rparr>"

text \<open>Delays, in microseconds.\<close>

definition seconds :: "int \<Rightarrow> int" where
  "seconds n = n * 1000000"

definition tenths :: "int \<Rightarrow> int" where
  "tenths n = n * 100000"

text \<open>
  \<^verbatim>\<open>idle(timeout=None)\<close>: \<open>rnow\<close> is the clock read by \<^verbatim>\<open>reset\<close>, the other three
  arguments are those of \<^verbatim>\<open>wait\<close>.
\<close>

definition idle :: "int option \<Rightarrow> int \<Rightarrow> int \<Rightarrow> wake \<Rightarrow> int \<Rightarrow> service \<Rightarrow> service \<times> bool" where
  "idle timeout rnow now w chk s =
     (let s1 = (case timeout of
                  None \<Rightarrow> s
                | Some d \<Rightarrow> if d \<noteq> 0 then s\<lparr>evt := reset (Some d) rnow (evt s)\<rparr> else s);
          (h, r) = wait now w chk (evt s1)
      in (s1\<lparr>evt := h\<rparr>, r))"

text \<open>
  What one iteration of the loop in \<^verbatim>\<open>run\<close> meets: the clock readings and wake-up of its
  \<^verbatim>\<open>wait\<close>, the worker hook it calls (what the hook raises, if anything, and the service
  as the hook leaves it), the clock read by the \<^verbatim>\<open>reset(delay=0.1)\<close> that opens
  \<^verbatim>\<open>_attempt_run\<close>, and the clock read by the \<^verbatim>\<open>reset\<close> that ends the iteration.
\<close>

record env =
  t_wait :: int
  woken :: wake
  t_check :: int
  hook :: "service \<Rightarrow> exn option \<times> service"
  t_begin :: int
  t_reset :: int

text \<open>A hook that raises \<open>E\<close> and leaves the service as it found it.\<close>

definition raising :: "exn \<Rightarrow> service \<Rightarrow> exn option \<times> service" where
  "raising E s = (Some E, s)"

definition svc_wait :: "env \<Rightarrow> service \<Rightarrow> service \<times> bool" where
  "svc_wait e s =
     (let (h, r) = wait (t_wait e) (woken e) (t_check e) (evt s) in (s\<lparr>evt := h\<rparr>, r))"

definition svc_reset :: "int option \<Rightarrow> int \<Rightarrow> service \<Rightarrow> service" where
  "svc_reset delay now s = s\<lparr>evt := reset delay now (evt s)\<rparr>"

text \<open>
  \<^verbatim>\<open>_attempt_start\<close>, \<^verbatim>\<open>_attempt_run\<close>, \<^verbatim>\<open>_attempt_stop\<close>. \<open>Inl E\<close> is an exception that
  no \<^verbatim>\<open>except\<close> clause catches; the branches that only choose a log message are merged.
\<close>

definition attempt_start :: "env \<Rightarrow> service \<Rightarrow> exn + service" where
  "attempt_start e s =
     (case hook e s of
        (None, s1) \<Rightarrow> Inr (s1\<lparr>state := Running\<rparr>)
      | (Some E, s1) \<Rightarrow>
          if is_Exception E then
            (if wanted s1 then Inr (svc_reset (Some (seconds 1)) (t_reset e) s1)
             else Inr (s1\<lparr>state := Stopped\<rparr>))
          else Inl E)"

definition attempt_run :: "env \<Rightarrow> service \<Rightarrow> exn + service" where
  "attempt_run e s =
     (case hook e (svc_reset (Some (tenths 1)) (t_begin e) s) of
        (None, s1) \<Rightarrow> Inr s1
      | (Some E, s1) \<Rightarrow>
          if is_ServiceRestartSignal E then
            Inr (svc_reset (Some (seconds 1)) (t_reset e) (s1\<lparr>state := Stopping\<rparr>))
          else if is_Exception E then
            Inr (svc_reset None (t_reset e) (s1\<lparr>state := Stopping\<rparr>))
          else Inl E)"

definition attempt_stop :: "env \<Rightarrow> service \<Rightarrow> exn + service" where
  "attempt_stop e s =
     (case hook e s of
        (None, s1) \<Rightarrow> Inr (s1\<lparr>state := Stopped\<rparr>)
      | (Some E, s1) \<Rightarrow>
          if is_Exception E then Inr (svc_reset (Some (seconds 1)) (t_reset e) s1)
          else Inl E)"

text \<open>One iteration of the \<^verbatim>\<open>while self.running\<close> loop of \<^verbatim>\<open>run\<close>: the \<^verbatim>\<open>match\<close> on
  the state.\<close>

definition step :: "env \<Rightarrow> service \<Rightarrow> exn + service" where
  "step e s =
     (case state s of
        Starting \<Rightarrow>
          (let (s1, due) = svc_wait e s in
           if due then attempt_start e s1
           else Inr (svc_reset (Some (seconds 1)) (t_reset e) s1))
      | Running \<Rightarrow>
          if wanted s then attempt_run e s
          else Inr (svc_reset (Some (seconds 5)) (t_reset e) (s\<lparr>state := Idle\<rparr>))
      | Idle \<Rightarrow>
          if shutdown_flag s then Inr (svc_reset None (t_reset e) (s\<lparr>state := Stopping\<rparr>))
          else
            (let (s1, due) = svc_wait e s in
             if due then Inr (svc_reset None (t_reset e) (s1\<lparr>state := Stopping\<rparr>))
             else if wanted s1 then Inr (s1\<lparr>state := Running\<rparr>)
             else Inr s1)
      | Stopping \<Rightarrow>
          (let (s1, due) = svc_wait e s in
           if due then attempt_stop e s1
           else Inr (svc_reset (Some (seconds 1)) (t_reset e) s1))
      | Stopped \<Rightarrow>
          (let (s1, due) = svc_wait e s in
           if wanted s1 then Inr (s1\<lparr>state := Starting\<rparr>)
           else Inr (svc_reset (Some (seconds 10)) (t_reset e) s1)))"

text \<open>
  The loop runs in the service's own thread while other threads call \<^verbatim>\<open>start()\<close>,
  \<^verbatim>\<open>stop()\<close> and, at the end of \<^verbatim>\<open>shutdown()\<close>, clear \<^verbatim>\<open>running\<close> and signal. A run is a
  sequence of loop iterations with such calls between them.
\<close>

datatype action = Iterate env | CallStart | CallStop | CallHalt

definition halt :: "service \<Rightarrow> service" where
  "halt s = s\<lparr>running := False, evt := signal (evt s)\<rparr>"

fun loop :: "action list \<Rightarrow> service \<Rightarrow> unit outcome \<times> service" where
  "loop [] s = (if running s then (Pending, s) else (Return (), s))"
| "loop (Iterate e # acts) s =
     (if running s then
        (case step e s of Inl E \<Rightarrow> (Raise E, s) | Inr s' \<Rightarrow> loop acts s')
      else (Return (), s))"
| "loop (CallStart # acts) s = loop acts (start s)"
| "loop (CallStop # acts) s = loop acts (stop s)"
| "loop (CallHalt # acts) s = loop acts (halt s)"

text \<open>\<^verbatim>\<open>run\<close>: \<^verbatim>\<open>worker_init()\<close>, outside any \<^verbatim>\<open>try\<close>, then the loop.\<close>

definition run :: "(service \<Rightarrow> exn option \<times> service) \<Rightarrow> action list \<Rightarrow> service
    \<Rightarrow> unit outcome \<times> service" where
  "run worker_init acts s =
     (case worker_init s of
        (Some E, s1) \<Rightarrow> (Raise E, s1)
      | (None, s1) \<Rightarrow> loop acts s1)"

text \<open>
  An iteration whose hook raises nothing but instances of \<^verbatim>\<open>Exception\<close>, and a run made
  of such iterations.
\<close>

definition raises_only_Exception :: "env \<Rightarrow> bool" where
  "raises_only_Exception e = (\<forall>s E s1. hook e s = (Some E, s1) \<longrightarrow> is_Exception E)"

fun only_Exception :: "action \<Rightarrow> bool" where
  "only_Exception (Iterate e) = raises_only_Exception e"
| "only_Exception CallStart = True"
| "only_Exception CallStop = True"
| "only_Exception CallHalt = True"

section \<open>Waiting for a service from another thread\<close>

text \<open>
  \<^verbatim>\<open>await_ready\<close> and \<^verbatim>\<open>await_stopped\<close> poll: between two checks they call
  \<^verbatim>\<open>self.idle(timeout=0.4)\<close> on the service's own holdoff, while the service's thread and
  other callers go on writing its fields. A \<open>poll\<close> holds the clock readings and wake-up of
  that \<^verbatim>\<open>idle\<close> call and the writes of the other threads during it.
\<close>

record poll =
  p_reset :: int
  p_wait :: int
  p_woken :: wake
  p_check :: int
  p_others :: "service \<Rightarrow> service"

definition after_idle :: "poll \<Rightarrow> service \<Rightarrow> service" where
  "after_idle p s =
     p_others p (fst (idle (Some (tenths 4)) (p_reset p) (p_wait p) (p_woken p) (p_check p) s))"

fun await_ready :: "poll list \<Rightarrow> service \<Rightarrow> bool outcome \<times> service" where
  "await_ready [] s =
     (if \<not> (running s \<and> wanted s) then (Raise ServiceStoppedError, s)
      else if state s = Running then (Return True, s)
      else (Pending, s))"
| "await_ready (p # ps) s =
     (if \<not> (running s \<and> wanted s) then (Raise ServiceStoppedError, s)
      else if state s = Running then (Return True, s)
      else await_ready ps (after_idle p s))"

fun await_stopped :: "poll list \<Rightarrow> service \<Rightarrow> bool outcome \<times> service" where
  "await_stopped [] s =
     (if wanted s then (Return False, s)
      else if state s = Stopped then (Return True, s)
      else (Pending, s))"
| "await_stopped (p # ps) s =
     (if wanted s then (Return False, s)
      else if state s = Stopped then (Return True, s)
      else await_stopped ps (after_idle p s))"

text \<open>The service as each check of \<^verbatim>\<open>await_ready\<close> finds it, for the checks the call
  reaches.\<close>

fun ready_checks :: "poll list \<Rightarrow> service \<Rightarrow> service list" where
  "ready_checks [] s = [s]"
| "ready_checks (p # ps) s =
     (if \<not> (running s \<and> wanted s) then [s]
      else if state s = Running then [s]
      else s # ready_checks ps (after_idle p s))"

text \<open>\<^verbatim>\<open>shutdown\<close>; \<^verbatim>\<open>join()\<close> returns once the loop has seen \<^verbatim>\<open>running\<close> cleared.\<close>

definition shutdown :: "poll list \<Rightarrow> service \<Rightarrow> unit outcome \<times> service" where
  "shutdown ps s =
     (case (if state s \<noteq> Stopped then await_stopped ps (stop s) else (Return True, s)) of
        (Return b, s1) \<Rightarrow> (Return (), halt s1)
      | (Raise E, s1) \<Rightarrow> (Raise E, s1)
      | (Pending, s1) \<Rightarrow> (Pending, s1))"

section \<open>The service manager\<close>

text \<open>
  \<^verbatim>\<open>svcs\<close> and \<^verbatim>\<open>refs\<close> are Python dictionaries, which keep their keys in insertion
  order: association lists, where assigning to a new key appends and assigning to an old
  one keeps its place. \<open>calls\<close> records, oldest first, the calls the manager makes on its
  services and its diagnostic calls; the code has no such field.
\<close>

datatype call =
    Dump | TraceAllThreads | TraceThread string
  | Start string | Stop string | AwaitReady string | AwaitStopped string | Shutdown string

record manager =
  svcs :: "(string \<times> service) list"
  refs :: "(string \<times> int) list"
  calls :: "call list"

definition new_manager :: manager where
  "new_manager = \<lparr>svcs = [], refs = [], calls = []\<rparr>"

text \<open>\<^verbatim>\<open>__contains__\<close>\<close>

definition contains :: "manager \<Rightarrow> string \<Rightarrow> bool" where
  "contains m name = (map_of (svcs m) name \<noteq> None)"

text \<open>\<^verbatim>\<open>__iter__\<close>: the registered names, in registration order.\<close>

definition names :: "manager \<Rightarrow> string list" where
  "names m = map fst (svcs m)"

definition logged :: "call \<Rightarrow> manager \<Rightarrow> manager" where
  "logged c m = m\<lparr>calls := calls m @ [c]\<rparr>"

text \<open>The service object registered under a name, as a call on it leaves it.\<close>

definition stored :: "string \<Rightarrow> service \<Rightarrow> manager \<Rightarrow> manager" where
  "stored name svc m = m\<lparr>svcs := AList.update name svc (svcs m)\<rparr>"

text \<open>The calls made between an earlier and a later state of the manager.\<close>

definition made :: "manager \<Rightarrow> manager \<Rightarrow> call list" where
  "made m m' = drop (length (calls m)) (calls m')"

definition register :: "string \<Rightarrow> service \<Rightarrow> manager \<Rightarrow> unit outcome \<times> manager" where
  "register name svc m =
     (if contains m name then (Raise KeyError, m)
      else (Return (),
            m\<lparr>svcs := AList.update name svc (svcs m),
              refs := AList.update name 0 (refs m)\<rparr>))"

text \<open>\<^verbatim>\<open>self.refs[name]\<close> raises \<^verbatim>\<open>KeyError\<close> for a name \<^verbatim>\<open>refs\<close> lacks; \<^verbatim>\<open>if self.refs[name]\<close>
  holds for any count other than zero.\<close>

definition unregister :: "string \<Rightarrow> manager \<Rightarrow> unit outcome \<times> manager" where
  "unregister name m =
     (if \<not> contains m name then (Raise KeyError, m)
      else
        (case map_of (refs m) name of
           None \<Rightarrow> (Raise KeyError, m)
         | Some r \<Rightarrow>
             if r \<noteq> 0 then (Raise ServiceError, m)
             else (Return (),
                   m\<lparr>svcs := AList.delete name (svcs m),
                     refs := AList.delete name (refs m)\<rparr>)))"

text \<open>\<^verbatim>\<open>put\<close>. The \<^verbatim>\<open>assert\<close> raises \<^verbatim>\<open>AssertionError\<close> (the interpreter runs without
  \<^verbatim>\<open>-O\<close>).\<close>

definition put :: "string \<Rightarrow> manager \<Rightarrow> unit outcome \<times> manager" where
  "put name m =
     (case map_of (svcs m) name of
        None \<Rightarrow> (Raise KeyError, m)
      | Some svc \<Rightarrow>
          (case map_of (refs m) name of
             None \<Rightarrow> (Raise KeyError, m)
           | Some r \<Rightarrow>
               if r = 0 then (Raise AssertionError, m)
               else
                 (let m1 = m\<lparr>refs := AList.update name (r - 1) (refs m)\<rparr> in
                  if r - 1 = 0 then (Return (), stored name (stop svc) (logged (Stop name) m1))
                  else (Return (), m1))))"

text \<open>
  \<^verbatim>\<open>get(name, ready=True)\<close>. \<open>ps\<close> are the polls of its \<^verbatim>\<open>await_ready\<close> call. The value
  returned is the service object, as the call leaves it.
\<close>

definition get :: "string \<Rightarrow> bool \<Rightarrow> poll list \<Rightarrow> manager \<Rightarrow> service outcome \<times> manager" where
  "get name ready ps m =
     (case map_of (svcs m) name of
        None \<Rightarrow> (Raise KeyError, m)
      | Some svc \<Rightarrow>
          (case map_of (refs m) name of
             None \<Rightarrow> (Raise KeyError, m)
           | Some r \<Rightarrow>
               (let m1 = m\<lparr>refs := AList.update name (r + 1) (refs m)\<rparr>;
                    (svc1, m2) =
                      (if r + 1 = 1 then (start svc, stored name (start svc) (logged (Start name) m1))
                       else (svc, m1))
                in if ready then
                     (let (out, svc2) = await_ready ps svc1;
                          m3 = stored name svc2 (logged (AwaitReady name) m2)
                      in case out of
                           Return b \<Rightarrow> (Return svc2, m3)
                         | Pending \<Rightarrow> (Pending, m3)
                         | Raise E \<Rightarrow>
                             if is_ServiceError E then
                               (case put name m3 of
                                  (Raise E', m4) \<Rightarrow> (Raise E', m4)
                                | (out', m4) \<Rightarrow> (Raise E, m4))
                             else (Raise E, m3))
                   else (Return svc1, m2))))"

text \<open>
  \<^verbatim>\<open>borrow\<close>, used as \<^verbatim>\<open>with self.borrow(name) as svc: body\<close>. The body gets the service
  and the manager; it returns, raises, or does not come back. The \<^verbatim>\<open>finally\<close> clause runs
  \<^verbatim>\<open>put\<close> when the body returns and when it raises; an exception of \<^verbatim>\<open>put\<close> replaces the
  body's.
\<close>

definition borrow :: "string \<Rightarrow> poll list \<Rightarrow> (service \<Rightarrow> manager \<Rightarrow> 'a outcome \<times> manager)
    \<Rightarrow> manager \<Rightarrow> 'a outcome \<times> manager" where
  "borrow name ps body m =
     (case get name True ps m of
        (Raise E, m1) \<Rightarrow> (Raise E, m1)
      | (Pending, m1) \<Rightarrow> (Pending, m1)
      | (Return svc, m1) \<Rightarrow>
          (case body svc m1 of
             (Pending, m2) \<Rightarrow> (Pending, m2)
           | (out, m2) \<Rightarrow>
               (case put name m2 of
                  (Raise E', m3) \<Rightarrow> (Raise E', m3)
                | (out', m3) \<Rightarrow> (out, m3))))"

text \<open>
  Two blocks that act on the manager: one releases a reference of its own
  (\<^verbatim>\<open>self.put(name)\<close>), the other takes one (\<^verbatim>\<open>self.get(name, ready=False)\<close>) and then
  raises.
\<close>

definition releasing :: "string \<Rightarrow> service \<Rightarrow> manager \<Rightarrow> unit outcome \<times> manager" where
  "releasing name svc m = put name m"

definition taking_then_raising :: "string \<Rightarrow> service \<Rightarrow> manager \<Rightarrow> unit outcome \<times> manager" where
  "taking_then_raising name svc m = (Raise OtherException, snd (get name False [] m))"

text \<open>\<^verbatim>\<open>dump\<close> only logs; reading \<^verbatim>\<open>self.refs[name]\<close> raises \<^verbatim>\<open>KeyError\<close> for a
  registered name without a count.\<close>

definition dump :: "manager \<Rightarrow> unit outcome \<times> manager" where
  "dump m =
     (if list_all (\<lambda>name. map_of (refs m) name \<noteq> None) (names m)
      then (Return (), logged Dump m)
      else (Raise KeyError, logged Dump m))"

text \<open>
  The three loops of \<^verbatim>\<open>atexit\<close> over \<^verbatim>\<open>self.svcs.values()\<close>. Each visits the registered
  services in order; a visit changes no service but its own. \<open>P\<close> gives, for each name, the
  polls of the \<^verbatim>\<open>await_stopped\<close> call made on that service. \<^verbatim>\<open>trace_all_threads\<close> and
  \<^verbatim>\<open>trace_thread\<close> belong to \<^verbatim>\<open>web/lib/trace.py\<close>; they are taken to return and to leave
  the manager alone.
\<close>

fun stop_all :: "(string \<times> service) list \<Rightarrow> manager \<Rightarrow> manager" where
  "stop_all [] m = m"
| "stop_all ((name, svc) # rest) m =
     (if state svc \<noteq> Stopped then stop_all rest (stored name (stop svc) (logged (Stop name) m))
      else stop_all rest m)"

fun await_all :: "(string \<Rightarrow> poll list) \<Rightarrow> (string \<times> service) list \<Rightarrow> manager
    \<Rightarrow> unit outcome \<times> manager" where
  "await_all P [] m = (Return (), m)"
| "await_all P ((name, svc) # rest) m =
     (case await_stopped (P name) svc of
        (Return b, svc1) \<Rightarrow>
          await_all P rest
            (stored name svc1 (logged (AwaitStopped name) (logged (TraceThread name) m)))
      | (Raise E, svc1) \<Rightarrow>
          (Raise E, stored name svc1 (logged (AwaitStopped name) (logged (TraceThread name) m)))
      | (Pending, svc1) \<Rightarrow>
          (Pending, stored name svc1 (logged (AwaitStopped name) (logged (TraceThread name) m))))"

fun shutdown_all :: "(string \<Rightarrow> poll list) \<Rightarrow> (string \<times> service) list \<Rightarrow> manager
    \<Rightarrow> unit outcome \<times> manager" where
  "shutdown_all P [] m = (Return (), m)"
| "shutdown_all P ((name, svc) # rest) m =
     (case shutdown (P name) svc of
        (Return u, svc1) \<Rightarrow> shutdown_all P rest (stored name svc1 (logged (Shutdown name) m))
      | (Raise E, svc1) \<Rightarrow> (Raise E, stored name svc1 (logged (Shutdown name) m))
      | (Pending, svc1) \<Rightarrow> (Pending, stored name svc1 (logged (Shutdown name) m)))"

text \<open>\<^verbatim>\<open>atexit\<close>: \<open>P2\<close> are the polls of the second loop, \<open>P3\<close> those of the third.\<close>

definition atexit :: "(string \<Rightarrow> poll list) \<Rightarrow> (string \<Rightarrow> poll list) \<Rightarrow> manager
    \<Rightarrow> unit outcome \<times> manager" where
  "atexit P2 P3 m =
     (case dump m of
        (Raise E, m1) \<Rightarrow> (Raise E, m1)
      | (Pending, m1) \<Rightarrow> (Pending, m1)
      | (Return u1, m1) \<Rightarrow>
          (let m2 = logged TraceAllThreads m1;
               m3 = stop_all (svcs m2) m2
           in case dump m3 of
                (Raise E, m4) \<Rightarrow> (Raise E, m4)
              | (Pending, m4) \<Rightarrow> (Pending, m4)
              | (Return u2, m4) \<Rightarrow>
                  (case await_all P2 (svcs m4) m4 of
                     (Raise E, m5) \<Rightarrow> (Raise E, m5)
                   | (Pending, m5) \<Rightarrow> (Pending, m5)
                   | (Return u3, m5) \<Rightarrow>
                       (case dump m5 of
                          (Raise E, m6) \<Rightarrow> (Raise E, m6)
                        | (Pending, m6) \<Rightarrow> (Pending, m6)
                        | (Return u4, m6) \<Rightarrow> shutdown_all P3 (svcs m6) m6))))"

text \<open>
  The manager in use: any sequence of \<^verbatim>\<open>register\<close>, \<^verbatim>\<open>unregister\<close>, \<^verbatim>\<open>get\<close> and \<^verbatim>\<open>put\<close>
  calls. A caller that catches the exception of one call goes on with the manager as that
  call left it.
\<close>

datatype mop =
    Register string service
  | Unregister string
  | Get string bool "poll list"
  | Put string

fun exec_op :: "mop \<Rightarrow> manager \<Rightarrow> manager" where
  "exec_op (Register name svc) m = snd (register name svc m)"
| "exec_op (Unregister name) m = snd (unregister name m)"
| "exec_op (Get name ready ps) m = snd (get name ready ps m)"
| "exec_op (Put name) m = snd (put name m)"

definition exec_ops :: "mop list \<Rightarrow> manager \<Rightarrow> manager" where
  "exec_ops ops m = fold exec_op ops m"

text \<open>The count of a name, \<^verbatim>\<open>self.refs[name]\<close>, when it has one.\<close>

definition refcount :: "manager \<Rightarrow> string \<Rightarrow> int option" where
  "refcount m name = map_of (refs m) name"

text \<open>
  What the manager keeps true: the names of \<^verbatim>\<open>svcs\<close> are distinct, \<^verbatim>\<open>refs\<close> has the same
  names in the same order, and no count is negative.
\<close>

definition manager_ok :: "manager \<Rightarrow> bool" where
  "manager_ok m =
     (distinct (names m) \<and> map fst (refs m) = names m
      \<and> (\<forall>name r. refcount m name = Some r \<longrightarrow> 0 \<le> r))"

text \<open>
  The shutdown sequence as the specification lists it: a dump; \<^verbatim>\<open>stop()\<close> on every
  registered service not already \<open>Stopped\<close>; a dump; \<^verbatim>\<open>await_stopped()\<close> on every service
  in registration order; a dump; \<^verbatim>\<open>shutdown()\<close> on every service in registration order.
  The thread traces of the code, which the specification does not mention, are listed
  where the code makes them.
\<close>

definition unstopped :: "manager \<Rightarrow> string list" where
  "unstopped m = map fst (filter (\<lambda>(name, svc). state svc \<noteq> Stopped) (svcs m))"

definition shutdown_sequence :: "manager \<Rightarrow> call list" where
  "shutdown_sequence m =
     [Dump, TraceAllThreads] @ map Stop (unstopped m)
     @ [Dump] @ concat (map (\<lambda>name. [TraceThread name, AwaitStopped name]) (names m))
     @ [Dump] @ map Shutdown (names m)"

section \<open>Properties of the timed wait\<close>

lemma wait_overdue: "deadline h < now \<Longrightarrow> wait now w chk h = (h\<lparr>event := False\<rparr>, True)"
  by (simp add: wait_def remaining_def)

lemma wait_clear_timeout:
  "\<not> event h \<Longrightarrow> wait now Timeout chk h = (h\<lparr>event := False\<rparr>, True)"
  by (cases h) (simp add: wait_def event_wait_def Let_def)

lemma reset_event: "event (reset delay now h) = event h"
  by (simp add: reset_def split: option.splits)

lemma run_hops_unsignalled:
  "\<not> event h \<Longrightarrow> list_all unsignalled ops \<Longrightarrow> list_all (\<lambda>r. r) (fst (run_hops ops h))"
proof (induction ops arbitrary: h)
  case Nil
  then show ?case by simp
next
  case (Cons a ops)
  show ?case
  proof (cases a)
    case (Reset delay now)
    with Cons show ?thesis by (simp add: reset_event)
  next
    case Signal
    with Cons.prems show ?thesis by simp
  next
    case (Wait now w chk)
    with Cons.prems have w: "w = Timeout" by simp
    have "list_all (\<lambda>r. r) (fst (run_hops ops (h\<lparr>event := False\<rparr>)))"
      using Cons.IH [of "h\<lparr>event := False\<rparr>"] Cons.prems by simp
    with Wait w Cons.prems show ?thesis
      by (auto simp add: wait_clear_timeout split: prod.splits)
  qed
qed


text \<open>
  Claim C1, as the specification words it: \<^verbatim>\<open>wait()\<close> returns false only when the wake
  signal was set strictly before the deadline. The code returns \<^verbatim>\<open>self.passed\<close>, that is
  \<^verbatim>\<open>remaining < 0\<close>, which is false when the clock reads exactly the deadline. So with
  the deadline at reading 10, a signal set at reading 10 and \<^verbatim>\<open>wait()\<close> called at reading
  10, \<^verbatim>\<open>wait()\<close> returns false: for instance \<^verbatim>\<open>reset()\<close>, \<^verbatim>\<open>signal()\<close> and \<^verbatim>\<open>wait()\<close> in
  the same clock reading.
\<close>

theorem C1_counterexample:
  "signalled_at 10 Timeout \<lparr>deadline = 10, event = True\<rparr> 10
   \<and> readings_ordered 10 Timeout 10
   \<and> snd (wait 10 Timeout 10 \<lparr>deadline = 10, event = True\<rparr>) = False
   \<and> \<not> (10 < deadline \<lparr>deadline = 10, event = True\<rparr>)
   \<and> fst (run_hops [Reset None 10, Signal, Wait 10 Timeout 10] (new_holdoff 0)) = [False]"
  by (simp add: wait_def remaining_def passed_def event_wait_def readings_ordered_def
      signalled_at_def reset_def signal_def new_holdoff_def)

text \<open>
  Claim C1, amended. For every call of \<^verbatim>\<open>wait()\<close> whose clock readings are in program
  order: it returns false exactly when it returns through the signal path and the deadline
  has not passed at the reading taken after the wake-up (reading \<open>\<le>\<close> deadline), so only
  when the signal was set at or before the deadline; it returns true when the deadline had
  already passed at call time, and when the timeout expires with no signal set; it returns
  true when it is signalled at a reading after the deadline; and returning through the
  signal path leaves the signal clear.
\<close>

theorem C1_wait_outcomes:
  assumes "readings_ordered now w chk" and "wait now w chk h = (h', r)"
  shows "(\<not> r \<longleftrightarrow> via_signal now w h \<and> chk \<le> deadline h)
     \<and> (\<not> r \<longrightarrow> (\<forall>ts. signalled_at now w h ts \<longrightarrow> ts \<le> deadline h))
     \<and> (deadline h < now \<longrightarrow> r)
     \<and> (\<not> event h \<and> w = Timeout \<longrightarrow> r)
     \<and> (\<forall>ts. signalled_at now w h ts \<and> deadline h < ts \<longrightarrow> r)
     \<and> (via_signal now w h \<longrightarrow> \<not> event h')"
  using assms
  by (auto simp add: wait_def remaining_def passed_def event_wait_def readings_ordered_def
      via_signal_def signalled_at_def Let_def split: if_splits wake.splits)

theorem C1_wait_outcomes_witness:
  "readings_ordered 0 (SignalAt 3) 4
   \<and> wait 0 (SignalAt 3) 4 \<lparr>deadline = 10, event = False\<rparr>
       = (\<lparr>deadline = 10, event = False\<rparr>, False)
   \<and> via_signal 0 (SignalAt 3) \<lparr>deadline = 10, event = False\<rparr>
   \<and> signalled_at 0 (SignalAt 3) \<lparr>deadline = 10, event = False\<rparr> 3
   \<and> (3::int) \<le> 10
   \<and> readings_ordered 0 (SignalAt 12) 13
   \<and> signalled_at 0 (SignalAt 12) \<lparr>deadline = 10, event = False\<rparr> 12
   \<and> wait 0 (SignalAt 12) 13 \<lparr>deadline = 10, event = False\<rparr>
       = (\<lparr>deadline = 10, event = False\<rparr>, True)"
proof -
  have o1: "readings_ordered 0 (SignalAt 3) 4"
    by (simp add: readings_ordered_def)
  have w1: "wait 0 (SignalAt 3) 4 \<lparr>deadline = 10, event = False\<rparr>
       = (\<lparr>deadline = 10, event = False\<rparr>, False)"
    by (simp add: wait_def remaining_def passed_def event_wait_def)
  have o2: "readings_ordered 0 (SignalAt 12) 13"
    by (simp add: readings_ordered_def)
  have w2: "wait 0 (SignalAt 12) 13 \<lparr>deadline = 10, event = False\<rparr>
       = (\<lparr>deadline = 10, event = False\<rparr>, True)"
    by (simp add: wait_def remaining_def passed_def event_wait_def)
  show ?thesis
    using o1 w1 o2 w2 C1_wait_outcomes [OF o1 w1] C1_wait_outcomes [OF o2 w2]
    by (simp add: signalled_at_def)
qed

text \<open>
  Claim C9, as written: a \<^verbatim>\<open>signal()\<close> delivered while the deadline was already overdue
  can never produce a false return from any \<^verbatim>\<open>wait()\<close>. The signal stays pending until the
  next \<^verbatim>\<open>wait()\<close>, and a \<^verbatim>\<open>reset\<close> may come first, as it does in the loop of \<^verbatim>\<open>run\<close>: with
  the deadline at reading 0, a signal delivered at reading 5, \<^verbatim>\<open>reset(delay=1)\<close> at reading
  6 and \<^verbatim>\<open>wait()\<close> at reading 7, the pending signal makes \<^verbatim>\<open>wait()\<close> return false.
\<close>

theorem C9_counterexample:
  "deadline (new_holdoff 0) < 5
   \<and> fst (run_hops [Signal, Reset (Some (seconds 1)) 6, Wait 7 Timeout 8] (new_holdoff 0))
       = [False]"
  by (simp add: new_holdoff_def signal_def reset_def seconds_def wait_def remaining_def
      passed_def event_wait_def)

text \<open>
  Claim C9, amended. When \<^verbatim>\<open>wait()\<close> is called with the deadline already passed, it clears
  the wake signal and returns true without going through the signal path. So a
  \<^verbatim>\<open>signal()\<close> delivered while the deadline was overdue is consumed, with no false return,
  by a \<^verbatim>\<open>wait()\<close> called while the deadline is still overdue; and whatever resets and
  waits follow, no later \<^verbatim>\<open>wait()\<close> returns false until another signal is delivered. When
  instead the deadline is reset before the next \<^verbatim>\<open>wait()\<close>, and that call reads the clock
  no later than the new deadline, it returns false.
\<close>

theorem C9_overdue_wait_consumes_signal:
  assumes "deadline h < ts" and "ts \<le> now" and "list_all unsignalled ops"
  shows "wait now w chk h = (h\<lparr>event := False\<rparr>, True)
     \<and> \<not> via_signal now w h
     \<and> wait now w chk (signal h) = (h\<lparr>event := False\<rparr>, True)
     \<and> list_all (\<lambda>r. r) (fst (run_hops (Signal # Wait now w chk # ops) h))
     \<and> (\<forall>d rnow now' chk'. now' \<le> chk' \<and> chk' \<le> deadline (reset d rnow h) \<longrightarrow>
           snd (wait now' w chk' (reset d rnow (signal h))) = False)"
proof -
  from assms have over: "deadline (signal h) < now" and over': "deadline h < now"
    by (simp_all add: signal_def)
  have w: "wait now w chk (signal h) = (h\<lparr>event := False\<rparr>, True)"
    using wait_overdue [OF over, of w chk] by (simp add: signal_def)
  have v: "\<not> via_signal now w h"
    using over' by (simp add: via_signal_def remaining_def)
  have "list_all (\<lambda>r. r) (fst (run_hops ops (h\<lparr>event := False\<rparr>)))"
    using run_hops_unsignalled [of "h\<lparr>event := False\<rparr>" ops] assms(3) by simp
  with w have l: "list_all (\<lambda>r. r) (fst (run_hops (Signal # Wait now w chk # ops) h))"
    by (auto split: prod.splits)
  have r: "snd (wait now' w chk' (reset d rnow (signal h))) = False"
    if "now' \<le> chk' \<and> chk' \<le> deadline (reset d rnow h)" for d rnow now' chk'
    using that
    by (auto simp add: wait_def remaining_def passed_def event_wait_def reset_def signal_def
        split: option.splits if_splits)
  from w v l r wait_overdue [OF over', of w chk] show ?thesis by blast
qed

theorem C9_overdue_wait_consumes_signal_witness:
  "deadline \<lparr>deadline = 0, event = False\<rparr> < 5 \<and> (5::int) \<le> 6
   \<and> list_all unsignalled [Reset (Some 1000000) 7, Wait 8 Timeout 9]
   \<and> wait 6 Timeout 6 (signal \<lparr>deadline = 0, event = False\<rparr>)
        = (\<lparr>deadline = 0, event = False\<rparr>, True)
   \<and> fst (run_hops [Signal, Wait 6 Timeout 6, Reset (Some 1000000) 7, Wait 8 Timeout 9]
        \<lparr>deadline = 0, event = False\<rparr>) = [True, True]"
proof -
  have a: "deadline \<lparr>deadline = 0, event = False\<rparr> < 5" by simp
  have b: "(5::int) \<le> 6" by simp
  have c: "list_all unsignalled [Reset (Some 1000000) 7, Wait 8 Timeout 9]" by simp
  have d: "fst (run_hops [Signal, Wait 6 Timeout 6, Reset (Some 1000000) 7, Wait 8 Timeout 9]
        \<lparr>deadline = 0, event = False\<rparr>) = [True, True]"
    by (simp add: wait_def remaining_def passed_def event_wait_def signal_def reset_def)
  show ?thesis
    using a b c d C9_overdue_wait_consumes_signal [OF a b c, of Timeout 6] by simp
qed

section \<open>Properties of the state machine\<close>

text \<open>
  Claim C2. In the \<open>Idle\<close> state, when no shutdown has been requested, the service is not
  wanted and \<^verbatim>\<open>wait()\<close> reports a wake-up before the deadline (it returns false), the loop
  iteration makes no transition and does not reschedule: the state stays \<open>Idle\<close>, the flags
  and the deadline are unchanged (only the wake signal has been cleared), so the next
  iteration waits against the same deadline.
\<close>

theorem C2_idle_early_wake_no_transition:
  assumes "state s = Idle" and "\<not> shutdown_flag s" and "\<not> wanted s"
    and "snd (wait (t_wait e) (woken e) (t_check e) (evt s)) = False"
  shows "\<exists>s'. step e s = Inr s'
     \<and> state s' = Idle \<and> deadline (evt s') = deadline (evt s)
     \<and> wanted s' = wanted s \<and> shutdown_flag s' = shutdown_flag s \<and> running s' = running s
     \<and> s' = s\<lparr>evt := (evt s)\<lparr>event := False\<rparr>\<rparr>"
proof -
  from assms(4) have h: "wait (t_wait e) (woken e) (t_check e) (evt s) = ((evt s)\<lparr>event := False\<rparr>, False)"
    by (auto simp add: wait_def Let_def split: if_splits)
  have "step e s = Inr (s\<lparr>evt := (evt s)\<lparr>event := False\<rparr>\<rparr>)"
    using assms(1-3) h by (simp add: step_def svc_wait_def)
  with assms(1) show ?thesis by simp
qed

theorem C2_idle_early_wake_no_transition_witness:
  "(let s = \<lparr>running = True, state = Idle, wanted = False, shutdown_flag = False,
              evt = \<lparr>deadline = 5000000, event = False\<rparr>\<rparr>;
        e = \<lparr>t_wait = 100, woken = SignalAt 200, t_check = 300,
              hook = (\<lambda>s. (None, s)), t_begin = 0, t_reset = 400\<rparr>
    in state s = Idle \<and> \<not> shutdown_flag s \<and> \<not> wanted s
       \<and> snd (wait (t_wait e) (woken e) (t_check e) (evt s)) = False
       \<and> step e s = Inr s)"
proof -
  define s where "s = \<lparr>running = True, state = Idle, wanted = False, shutdown_flag = False,
              evt = \<lparr>deadline = 5000000, event = False\<rparr>\<rparr>"
  define e where "e = \<lparr>t_wait = 100, woken = SignalAt 200, t_check = 300,
              hook = (\<lambda>s::service. (None :: exn option, s)), t_begin = 0, t_reset = 400\<rparr>"
  have a: "state s = Idle" and b: "\<not> shutdown_flag s" and c: "\<not> wanted s"
    by (simp_all add: s_def)
  have d: "snd (wait (t_wait e) (woken e) (t_check e) (evt s)) = False"
    by (simp add: s_def e_def wait_def remaining_def passed_def event_wait_def)
  have "step e s = Inr s"
    using C2_idle_early_wake_no_transition [OF a b c d] by (auto simp add: s_def)
  with a b c d show ?thesis by (simp add: s_def e_def Let_def)
qed

lemma restart_is_Exception: "is_ServiceRestartSignal E \<longleftrightarrow> E = ServiceRestartSignal"
  by (cases E) simp_all

lemma attempt_start_uncaught:
  "attempt_start e s = Inl E \<Longrightarrow> \<not> is_Exception E \<and> (\<exists>s1. hook e s = (Some E, s1))"
  by (auto simp add: attempt_start_def split: prod.splits option.splits if_splits)

lemma attempt_stop_uncaught:
  "attempt_stop e s = Inl E \<Longrightarrow> \<not> is_Exception E \<and> (\<exists>s1. hook e s = (Some E, s1))"
  by (auto simp add: attempt_stop_def split: prod.splits option.splits if_splits)

lemma attempt_run_uncaught:
  "attempt_run e s = Inl E \<Longrightarrow>
     \<not> is_Exception E \<and> (\<exists>s1. hook e (svc_reset (Some (tenths 1)) (t_begin e) s) = (Some E, s1))"
  by (auto simp add: attempt_run_def split: prod.splits option.splits if_splits)

lemma step_uncaught:
  assumes "step e s = Inl E"
  shows "\<not> is_Exception E \<and> (\<exists>s0 s1. hook e s0 = (Some E, s1))"
proof -
  from assms have "(\<exists>s'. attempt_start e s' = Inl E) \<or> (\<exists>s'. attempt_run e s' = Inl E)
      \<or> (\<exists>s'. attempt_stop e s' = Inl E)"
    by (cases "state s") (auto simp add: step_def Let_def split: prod.splits if_splits)
  then show ?thesis
    using attempt_start_uncaught [of e _ E] attempt_stop_uncaught [of e _ E]
      attempt_run_uncaught [of e _ E]
    by blast
qed

lemma step_caught: "raises_only_Exception e \<Longrightarrow> \<exists>s'. step e s = Inr s'"
proof (cases "step e s")
  case (Inl E)
  assume "raises_only_Exception e"
  with step_uncaught [OF Inl] show ?thesis
    by (auto simp add: raises_only_Exception_def)
next
  case (Inr s')
  then show ?thesis by blast
qed

lemma loop_uncaught: "fst (loop acts s) = Raise E \<Longrightarrow> \<not> is_Exception E"
proof (induction acts s rule: loop.induct)
  case (2 e acts s)
  show ?case
  proof (cases "step e s")
    case (Inl E')
    with "2.prems" have "running s \<and> E' = E" by (auto split: if_splits)
    with step_uncaught [OF Inl] show ?thesis by simp
  next
    case (Inr s')
    with 2 show ?thesis by (auto split: if_splits)
  qed
qed (auto split: if_splits)

lemma loop_no_raise: "list_all only_Exception acts \<Longrightarrow> fst (loop acts s) \<noteq> Raise E"
proof (induction acts s rule: loop.induct)
  case (2 e acts s)
  then have "raises_only_Exception e" by simp
  then obtain s' where "step e s = Inr s'" using step_caught by blast
  with 2 show ?case by simp
qed simp_all

text \<open>
  Claim C4, as written: for every exception raised by a worker hook, and for
  \<^verbatim>\<open>worker_start\<close> and \<^verbatim>\<open>worker_stop\<close> it never propagates out of the loop. The handlers are
  \<^verbatim>\<open>except Exception\<close>, which does not catch \<^verbatim>\<open>SystemExit\<close>, \<^verbatim>\<open>KeyboardInterrupt\<close> or
  \<^verbatim>\<open>GeneratorExit\<close>: a \<^verbatim>\<open>worker_start\<close> or a \<^verbatim>\<open>worker_stop\<close> that raises \<^verbatim>\<open>SystemExit\<close> ends
  the loop with that exception, and so does a \<^verbatim>\<open>worker_run\<close>, without the move to
  \<open>Stopping\<close>.
\<close>

theorem C4_counterexample:
  "fst (loop [Iterate \<lparr>t_wait = 1, woken = Timeout, t_check = 1, hook = raising SystemExit,
                        t_begin = 1, t_reset = 1\<rparr>]
         \<lparr>running = True, state = Starting, wanted = True, shutdown_flag = False,
            evt = \<lparr>deadline = 0, event = False\<rparr>\<rparr>) = Raise SystemExit
   \<and> fst (loop [Iterate \<lparr>t_wait = 1, woken = Timeout, t_check = 1, hook = raising SystemExit,
                        t_begin = 1, t_reset = 1\<rparr>]
         \<lparr>running = True, state = Stopping, wanted = False, shutdown_flag = True,
            evt = \<lparr>deadline = 0, event = False\<rparr>\<rparr>) = Raise SystemExit
   \<and> fst (loop [Iterate \<lparr>t_wait = 1, woken = Timeout, t_check = 1, hook = raising SystemExit,
                        t_begin = 1, t_reset = 1\<rparr>]
         \<lparr>running = True, state = Running, wanted = True, shutdown_flag = False,
            evt = \<lparr>deadline = 0, event = False\<rparr>\<rparr>) = Raise SystemExit
   \<and> \<not> is_Exception SystemExit"
  by (simp add: step_def svc_wait_def wait_def remaining_def attempt_start_def attempt_stop_def
      attempt_run_def raising_def svc_reset_def reset_def tenths_def)

text \<open>
  Claim C4, amended. For every exception raised by a worker hook that is an instance of
  \<^verbatim>\<open>Exception\<close>: in the \<open>Running\<close> state of a wanted service, a restart signal raised by
  \<^verbatim>\<open>worker_run\<close> moves the state to \<open>Stopping\<close> and sets the deadline one second after the
  clock reading of the reset; any other such exception of \<^verbatim>\<open>worker_run\<close> moves the state to
  \<open>Stopping\<close> and sets the deadline to that reading (no delay); such an exception of
  \<^verbatim>\<open>worker_start\<close> only sets the deadline one second ahead (service still wanted) or the
  state to \<open>Stopped\<close> (no longer wanted), and one of \<^verbatim>\<open>worker_stop\<close> only sets the deadline
  one second ahead. An exception of a hook that is not an instance of \<^verbatim>\<open>Exception\<close> is not
  caught. So an exception that ends an iteration, or a run of the loop, is never an
  instance of \<^verbatim>\<open>Exception\<close>, and when the hooks raise instances of \<^verbatim>\<open>Exception\<close> only, no
  iteration and no run of the loop ends with an exception.
\<close>

theorem C4_hook_exceptions:
  "(hook e (svc_reset (Some (tenths 1)) (t_begin e) s) = (Some ServiceRestartSignal, s1) \<longrightarrow>
      state s = Running \<longrightarrow> wanted s \<longrightarrow>
      step e s = Inr (s1\<lparr>state := Stopping, evt := (evt s1)\<lparr>deadline := t_reset e + 1000000\<rparr>\<rparr>))
   \<and> (hook e (svc_reset (Some (tenths 1)) (t_begin e) s) = (Some E, s1) \<longrightarrow>
      is_Exception E \<longrightarrow> E \<noteq> ServiceRestartSignal \<longrightarrow> state s = Running \<longrightarrow> wanted s \<longrightarrow>
      step e s = Inr (s1\<lparr>state := Stopping, evt := (evt s1)\<lparr>deadline := t_reset e\<rparr>\<rparr>))
   \<and> (hook e s = (Some E, s1) \<longrightarrow> is_Exception E \<longrightarrow>
      attempt_start e s =
        Inr (if wanted s1 then s1\<lparr>evt := (evt s1)\<lparr>deadline := t_reset e + 1000000\<rparr>\<rparr>
             else s1\<lparr>state := Stopped\<rparr>))
   \<and> (hook e s = (Some E, s1) \<longrightarrow> is_Exception E \<longrightarrow>
      attempt_stop e s = Inr (s1\<lparr>evt := (evt s1)\<lparr>deadline := t_reset e + 1000000\<rparr>\<rparr>))
   \<and> (hook e s = (Some E, s1) \<longrightarrow> \<not> is_Exception E \<longrightarrow>
      attempt_start e s = Inl E \<and> attempt_stop e s = Inl E)
   \<and> (hook e (svc_reset (Some (tenths 1)) (t_begin e) s) = (Some E, s1) \<longrightarrow>
      \<not> is_Exception E \<longrightarrow> attempt_run e s = Inl E)
   \<and> (\<forall>E'. step e s = Inl E' \<longrightarrow> \<not> is_Exception E')
   \<and> (\<forall>E'. fst (loop acts s) = Raise E' \<longrightarrow> \<not> is_Exception E')
   \<and> (raises_only_Exception e \<longrightarrow> (\<forall>E'. step e s \<noteq> Inl E'))
   \<and> (list_all only_Exception acts \<longrightarrow> (\<forall>E'. fst (loop acts s) \<noteq> Raise E'))"
proof -
  have a: "hook e (svc_reset (Some (tenths 1)) (t_begin e) s) = (Some ServiceRestartSignal, s1) \<longrightarrow>
      state s = Running \<longrightarrow> wanted s \<longrightarrow>
      step e s = Inr (s1\<lparr>state := Stopping, evt := (evt s1)\<lparr>deadline := t_reset e + 1000000\<rparr>\<rparr>)"
    by (simp add: step_def attempt_run_def svc_reset_def reset_def seconds_def)
  have b: "hook e (svc_reset (Some (tenths 1)) (t_begin e) s) = (Some E, s1) \<longrightarrow>
      is_Exception E \<longrightarrow> E \<noteq> ServiceRestartSignal \<longrightarrow> state s = Running \<longrightarrow> wanted s \<longrightarrow>
      step e s = Inr (s1\<lparr>state := Stopping, evt := (evt s1)\<lparr>deadline := t_reset e\<rparr>\<rparr>)"
    by (simp add: step_def attempt_run_def svc_reset_def reset_def restart_is_Exception)
  have c: "hook e s = (Some E, s1) \<longrightarrow> is_Exception E \<longrightarrow>
      attempt_start e s =
        Inr (if wanted s1 then s1\<lparr>evt := (evt s1)\<lparr>deadline := t_reset e + 1000000\<rparr>\<rparr>
             else s1\<lparr>state := Stopped\<rparr>)"
    by (simp add: attempt_start_def svc_reset_def reset_def seconds_def)
  have d: "hook e s = (Some E, s1) \<longrightarrow> is_Exception E \<longrightarrow>
      attempt_stop e s = Inr (s1\<lparr>evt := (evt s1)\<lparr>deadline := t_reset e + 1000000\<rparr>\<rparr>)"
    by (simp add: attempt_stop_def svc_reset_def reset_def seconds_def)
  have u: "hook e s = (Some E, s1) \<longrightarrow> \<not> is_Exception E \<longrightarrow>
      attempt_start e s = Inl E \<and> attempt_stop e s = Inl E"
    by (simp add: attempt_start_def attempt_stop_def)
  have v: "hook e (svc_reset (Some (tenths 1)) (t_begin e) s) = (Some E, s1) \<longrightarrow>
      \<not> is_Exception E \<longrightarrow> attempt_run e s = Inl E"
    by (cases E) (simp_all add: attempt_run_def)
  have f: "\<forall>E'. step e s = Inl E' \<longrightarrow> \<not> is_Exception E'"
    using step_uncaught [of e s] by blast
  have g: "\<forall>E'. fst (loop acts s) = Raise E' \<longrightarrow> \<not> is_Exception E'"
    using loop_uncaught [of acts s] by blast
  have h: "raises_only_Exception e \<longrightarrow> (\<forall>E'. step e s \<noteq> Inl E')"
    using step_caught [of e s] by auto
  have i: "list_all only_Exception acts \<longrightarrow> (\<forall>E'. fst (loop acts s) \<noteq> Raise E')"
    by (simp add: loop_no_raise)
  from a b c d u v f g h i show ?thesis by blast
qed

theorem C4_hook_exceptions_witness:
  "(let s = \<lparr>running = True, state = Running, wanted = True, shutdown_flag = False,
              evt = \<lparr>deadline = 0, event = False\<rparr>\<rparr>;
        restart = \<lparr>t_wait = 0, woken = Timeout, t_check = 0,
              hook = raising ServiceRestartSignal, t_begin = 50, t_reset = 70\<rparr>;
        failing = \<lparr>t_wait = 0, woken = Timeout, t_check = 0,
              hook = raising OtherException, t_begin = 50, t_reset = 70\<rparr>;
        exiting = \<lparr>t_wait = 0, woken = Timeout, t_check = 0,
              hook = raising SystemExit, t_begin = 50, t_reset = 70\<rparr>
    in is_Exception OtherException \<and> raises_only_Exception restart
       \<and> raises_only_Exception failing
       \<and> list_all only_Exception [Iterate restart, Iterate failing]
       \<and> step restart s = Inr (s\<lparr>state := Stopping, evt := \<lparr>deadline = 1000070, event = False\<rparr>\<rparr>)
       \<and> step failing s = Inr (s\<lparr>state := Stopping, evt := \<lparr>deadline = 70, event = False\<rparr>\<rparr>)
       \<and> attempt_start failing s = Inr (s\<lparr>evt := \<lparr>deadline = 1000070, event = False\<rparr>\<rparr>)
       \<and> attempt_start failing (s\<lparr>wanted := False\<rparr>) = Inr (s\<lparr>wanted := False, state := Stopped\<rparr>)
       \<and> attempt_stop failing s = Inr (s\<lparr>evt := \<lparr>deadline = 1000070, event = False\<rparr>\<rparr>)
       \<and> attempt_start exiting s = Inl SystemExit
       \<and> attempt_stop exiting s = Inl SystemExit
       \<and> fst (loop [Iterate restart, Iterate failing] s) = Pending)"
proof -
  define s where "s = \<lparr>running = True, state = Running, wanted = True, shutdown_flag = False,
              evt = \<lparr>deadline = 0, event = False\<rparr>\<rparr>"
  define restart where "restart = \<lparr>t_wait = 0, woken = Timeout, t_check = 0,
              hook = raising ServiceRestartSignal, t_begin = 50, t_reset = 70\<rparr>"
  define failing where "failing = \<lparr>t_wait = 0, woken = Timeout, t_check = 0,
              hook = raising OtherException, t_begin = 50, t_reset = 70\<rparr>"
  define exiting where "exiting = \<lparr>t_wait = 0, woken = Timeout, t_check = 0,
              hook = raising SystemExit, t_begin = 50, t_reset = 70\<rparr>"
  define s0 where "s0 = svc_reset (Some (tenths 1)) 50 s"
  have t1: "raises_only_Exception restart" and t2: "raises_only_Exception failing"
    by (auto simp add: raises_only_Exception_def restart_def failing_def raising_def)
  then have t3: "list_all only_Exception [Iterate restart, Iterate failing]" by simp
  have r1: "step restart s = Inr (s\<lparr>state := Stopping, evt := \<lparr>deadline = 1000070, event = False\<rparr>\<rparr>)"
    using C4_hook_exceptions [of restart s s0 OtherException "[]"]
    by (simp add: s_def restart_def s0_def svc_reset_def reset_def tenths_def raising_def)
  have r2: "step failing s = Inr (s\<lparr>state := Stopping, evt := \<lparr>deadline = 70, event = False\<rparr>\<rparr>)"
    using C4_hook_exceptions [of failing s s0 OtherException "[]"]
    by (simp add: s_def failing_def s0_def svc_reset_def reset_def tenths_def raising_def)
  have r3: "attempt_start failing s = Inr (s\<lparr>evt := \<lparr>deadline = 1000070, event = False\<rparr>\<rparr>)"
    using C4_hook_exceptions [of failing s s OtherException "[]"]
    by (simp add: s_def failing_def raising_def)
  have r4: "attempt_start failing (s\<lparr>wanted := False\<rparr>) = Inr (s\<lparr>wanted := False, state := Stopped\<rparr>)"
    using C4_hook_exceptions [of failing "s\<lparr>wanted := False\<rparr>" "s\<lparr>wanted := False\<rparr>" OtherException "[]"]
    by (simp add: s_def failing_def raising_def)
  have r5: "attempt_stop failing s = Inr (s\<lparr>evt := \<lparr>deadline = 1000070, event = False\<rparr>\<rparr>)"
    using C4_hook_exceptions [of failing s s OtherException "[]"]
    by (simp add: s_def failing_def raising_def)
  have r6: "attempt_start exiting s = Inl SystemExit \<and> attempt_stop exiting s = Inl SystemExit"
    using C4_hook_exceptions [of exiting s s SystemExit "[]"]
    by (simp add: exiting_def raising_def)
  have "\<forall>E'. fst (loop [Iterate restart, Iterate failing] s) \<noteq> Raise E'"
    using C4_hook_exceptions [of restart s s OtherException "[Iterate restart, Iterate failing]"] t3
    by blast
  moreover have "fst (loop [Iterate restart, Iterate failing] s) \<noteq> Return ()"
    using r1 by (simp add: s_def step_def attempt_stop_def svc_wait_def wait_def remaining_def
        passed_def event_wait_def svc_reset_def reset_def seconds_def failing_def restart_def
        raising_def split: sum.splits)
  ultimately have r7: "fst (loop [Iterate restart, Iterate failing] s) = Pending"
    by (cases "fst (loop [Iterate restart, Iterate failing] s)") auto
  from t1 t2 t3 r1 r2 r3 r4 r5 r6 r7 show ?thesis
    by (simp add: Let_def s_def restart_def failing_def exiting_def)
qed

lemma ready_checks_raise:
  "c \<in> set (ready_checks ps s) \<Longrightarrow> \<not> (running c \<and> wanted c)
     \<Longrightarrow> fst (await_ready ps s) = Raise ServiceStoppedError"
proof (induction ps arbitrary: s)
  case Nil
  then show ?case by simp
next
  case (Cons p ps)
  show ?case
  proof (cases "\<not> (running s \<and> wanted s)")
    case True
    then show ?thesis by simp
  next
    case False
    show ?thesis
    proof (cases "state s = Running")
      case True
      with False Cons.prems show ?thesis by simp
    next
      case notrun: False
      with False Cons.prems have "c \<in> set (ready_checks ps (after_idle p s))" by auto
      from Cons.IH [OF this Cons.prems(2)] False notrun show ?thesis by simp
    qed
  qed
qed

text \<open>
  Claim C10. \<^verbatim>\<open>await_ready\<close> tests \<^verbatim>\<open>running\<close> and \<^verbatim>\<open>wanted\<close> before it tests the state:
  at every check the call reaches, if \<^verbatim>\<open>running\<close> or \<^verbatim>\<open>wanted\<close> is false the call raises
  the stopped error; in particular it raises, and does not return true, for a service
  whose state is already \<open>Running\<close> but which is no longer wanted or no longer running.
\<close>

theorem C10_await_ready_flags_before_state:
  "(c \<in> set (ready_checks ps s) \<longrightarrow> \<not> running c \<or> \<not> wanted c \<longrightarrow>
       fst (await_ready ps s) = Raise ServiceStoppedError)
   \<and> (state s = Running \<longrightarrow> \<not> running s \<or> \<not> wanted s \<longrightarrow>
       await_ready ps s = (Raise ServiceStoppedError, s))"
proof -
  have "state s = Running \<longrightarrow> \<not> running s \<or> \<not> wanted s \<longrightarrow>
       await_ready ps s = (Raise ServiceStoppedError, s)"
    by (cases ps) auto
  then show ?thesis using ready_checks_raise [of c ps s] by blast
qed

theorem C10_await_ready_flags_before_state_witness:
  "(let s = \<lparr>running = True, state = Running, wanted = False, shutdown_flag = True,
              evt = \<lparr>deadline = 0, event = True\<rparr>\<rparr>;
        t = \<lparr>running = True, state = Starting, wanted = True, shutdown_flag = False,
              evt = \<lparr>deadline = 0, event = False\<rparr>\<rparr>;
        p = \<lparr>p_reset = 1, p_wait = 2, p_woken = SignalAt 3, p_check = 4,
              p_others = (\<lambda>x. s)\<rparr>
    in s \<in> set (ready_checks [p] t) \<and> state s = Running \<and> \<not> wanted s
       \<and> fst (await_ready [p] t) = Raise ServiceStoppedError
       \<and> await_ready [] s = (Raise ServiceStoppedError, s))"
proof -
  define s where "s = \<lparr>running = True, state = Running, wanted = False, shutdown_flag = True,
              evt = \<lparr>deadline = 0, event = True\<rparr>\<rparr>"
  define t where "t = \<lparr>running = True, state = Starting, wanted = True, shutdown_flag = False,
              evt = \<lparr>deadline = 0, event = False\<rparr>\<rparr>"
  define p where "p = \<lparr>p_reset = 1, p_wait = 2, p_woken = SignalAt 3, p_check = 4,
              p_others = (\<lambda>x::service. s)\<rparr>"
  have a: "s \<in> set (ready_checks [p] t)"
    by (simp add: s_def t_def p_def after_idle_def)
  have b: "state s = Running" and c: "\<not> wanted s"
    by (simp_all add: s_def)
  have "fst (await_ready [p] t) = Raise ServiceStoppedError"
    using C10_await_ready_flags_before_state [of s "[p]" t] a c by simp
  moreover have "await_ready [] s = (Raise ServiceStoppedError, s)"
    using C10_await_ready_flags_before_state [of s "[]" s] b c by simp
  ultimately show ?thesis using a b c by (simp add: Let_def s_def t_def p_def)
qed

section \<open>Properties of the manager\<close>

text \<open>
  Claim C6, as the specification words it: every misuse of the manager fails with the
  generic service error. Registering a name twice raises \<^verbatim>\<open>KeyError\<close>, and releasing a
  name whose count is zero fails the \<^verbatim>\<open>assert\<close>; neither is a \<^verbatim>\<open>ServiceError\<close>.
\<close>

theorem C6_counterexample:
  "fst (register ''A'' (new_service 0) (snd (register ''A'' (new_service 0) new_manager)))
     = Raise KeyError
   \<and> \<not> is_ServiceError KeyError
   \<and> fst (put ''A'' (snd (register ''A'' (new_service 0) new_manager))) = Raise AssertionError
   \<and> \<not> is_ServiceError AssertionError"
  by (simp add: register_def put_def contains_def new_manager_def)

text \<open>
  Claim C6, amended. Registering a name that is already present raises \<^verbatim>\<open>KeyError\<close>;
  unregistering a name with outstanding references raises the generic service error;
  releasing a name whose count is already zero raises \<^verbatim>\<open>AssertionError\<close>. Each leaves the
  manager as it was.
\<close>

theorem C6_misuse_errors:
  "(contains m name \<longrightarrow> register name svc m = (Raise KeyError, m))
   \<and> (contains m name \<longrightarrow> refcount m name = Some r \<longrightarrow> 0 < r \<longrightarrow>
        unregister name m = (Raise ServiceError, m))
   \<and> (contains m name \<longrightarrow> refcount m name = Some 0 \<longrightarrow>
        put name m = (Raise AssertionError, m))"
  by (auto simp add: register_def unregister_def put_def contains_def refcount_def)

theorem C6_misuse_errors_witness:
  "(let m = snd (register ''A'' (new_service 0) new_manager);
        m' = snd (get ''A'' False [] m)
    in contains m ''A'' \<and> refcount m ''A'' = Some 0 \<and> refcount m' ''A'' = Some 1
       \<and> register ''A'' (new_service 7) m = (Raise KeyError, m)
       \<and> unregister ''A'' m' = (Raise ServiceError, m')
       \<and> put ''A'' m = (Raise AssertionError, m))"
proof -
  define m where "m = snd (register ''A'' (new_service 0) new_manager)"
  define m' where "m' = snd (get ''A'' False [] m)"
  have a: "contains m ''A''" and b: "refcount m ''A'' = Some 0"
    by (simp_all add: m_def register_def contains_def refcount_def new_manager_def)
  have c: "contains m' ''A''" and d: "refcount m' ''A'' = Some 1"
    by (simp_all add: m'_def m_def get_def register_def contains_def refcount_def new_manager_def
        stored_def logged_def)
  have "register ''A'' (new_service 7) m = (Raise KeyError, m)"
    using C6_misuse_errors [of m "''A''" "new_service 7" 1] a by simp
  moreover have "unregister ''A'' m' = (Raise ServiceError, m')"
    using C6_misuse_errors [of m' "''A''" "new_service 7" 1] c d by simp
  moreover have "put ''A'' m = (Raise AssertionError, m)"
    using C6_misuse_errors [of m "''A''" "new_service 7" 1] a b by simp
  ultimately show ?thesis using a b d by (simp add: Let_def m_def m'_def)
qed

subsection \<open>Taking and releasing references\<close>

lemma await_ready_raises: "fst (await_ready ps s) = Raise E \<Longrightarrow> E = ServiceStoppedError"
  by (induction ps arbitrary: s) (auto split: if_splits)

lemma calls_stored: "calls (stored name svc m) = calls m"
  by (simp add: stored_def)

lemma refs_stored: "refs (stored name svc m) = refs m"
  by (simp add: stored_def)

lemma refs_logged: "refs (logged c m) = refs m"
  by (simp add: logged_def)

lemma svcs_logged: "svcs (logged c m) = svcs m"
  by (simp add: logged_def)

lemma calls_logged: "calls (logged c m) = calls m @ [c]"
  by (simp add: logged_def)

lemma map_of_svcs_stored: "map_of (svcs (stored name svc m)) name = Some svc"
  by (simp add: stored_def update_conv')

lemma put_releases:
  assumes "map_of (svcs m) name = Some svc" and "refcount m name = Some r" and "r \<noteq> 0"
  shows "put name m =
           (Return (),
            if r = 1
            then stored name (stop svc) (logged (Stop name) (m\<lparr>refs := AList.update name 0 (refs m)\<rparr>))
            else m\<lparr>refs := AList.update name (r - 1) (refs m)\<rparr>)"
    and "refcount (snd (put name m)) name = Some (r - 1)"
    and "calls (snd (put name m)) = calls m @ (if r = 1 then [Stop name] else [])"
  using assms
  by (simp_all add: put_def refcount_def Let_def update_conv'
      refs_stored refs_logged calls_stored calls_logged)

text \<open>
  \<^verbatim>\<open>get\<close> on a registered name, unfolded: the service and the manager as \<^verbatim>\<open>get\<close> has
  them when it calls \<^verbatim>\<open>await_ready\<close>, and the manager when \<^verbatim>\<open>await_ready\<close> is over.
\<close>

lemma get_unfolded:
  fixes m :: manager and name :: string and svc :: service and r :: int and ps :: "poll list"
  assumes "map_of (svcs m) name = Some svc" and "refcount m name = Some r"
  defines "svc1 \<equiv> (if r = 0 then start svc else svc)"
  defines "m2 \<equiv> (if r = 0
      then stored name (start svc) (logged (Start name) (m\<lparr>refs := AList.update name 1 (refs m)\<rparr>))
      else m\<lparr>refs := AList.update name (r + 1) (refs m)\<rparr>)"
  defines "m3 \<equiv> stored name (snd (await_ready ps svc1)) (logged (AwaitReady name) m2)"
  shows "get name ready ps m =
     (if ready then
        (case fst (await_ready ps svc1) of
           Return b \<Rightarrow> (Return (snd (await_ready ps svc1)), m3)
         | Pending \<Rightarrow> (Pending, m3)
         | Raise E \<Rightarrow>
             if is_ServiceError E then
               (case put name m3 of (Raise E', m4) \<Rightarrow> (Raise E', m4) | (out', m4) \<Rightarrow> (Raise E, m4))
             else (Raise E, m3))
      else (Return svc1, m2))"
    and "calls m2 = calls m @ (if r = 0 then [Start name] else [])"
    and "calls m3 = calls m2 @ [AwaitReady name]"
    and "map_of (svcs m3) name = Some (snd (await_ready ps svc1))"
    and "refcount m3 name = Some (r + 1)"
    and "refcount m2 name = Some (r + 1)"
    and "map_of (svcs m2) name \<noteq> None"
  using assms(1,2)
  by (auto simp add: get_def refcount_def Let_def svc1_def m2_def m3_def calls_stored calls_logged
      map_of_svcs_stored refs_stored refs_logged update_conv' stored_def
      split: prod.splits outcome.splits)

lemma get_failure:
  assumes "map_of (svcs m) name = Some svc" and "refcount m name = Some r" and "0 \<le> r"
    and "fst (await_ready ps (if r = 0 then start svc else svc)) = Raise E"
  shows "fst (get name True ps m) = Raise E"
    and "refcount (snd (get name True ps m)) name = Some r"
    and "\<exists>pre. calls (snd (get name True ps m)) = pre @ (if r = 0 then [Stop name] else [])"
proof -
  note g = get_unfolded [OF assms(1,2)]
  from assms(3) have nz: "r + 1 \<noteq> 0" by simp
  note p = put_releases [OF g(4) g(5) nz]
  from assms(4) have "E = ServiceStoppedError" by (rule await_ready_raises)
  then have E: "is_ServiceError E" by simp
  from assms(4) E p(1)
  have gg: "get name True ps m = (Raise E, snd (put name
      (stored name (snd (await_ready ps (if r = 0 then start svc else svc)))
        (logged (AwaitReady name)
          (if r = 0
           then stored name (start svc) (logged (Start name) (m\<lparr>refs := AList.update name 1 (refs m)\<rparr>))
           else m\<lparr>refs := AList.update name (r + 1) (refs m)\<rparr>)))))"
    by (simp only: g(1) if_True outcome.case split: prod.splits) auto
  from gg show "fst (get name True ps m) = Raise E" by simp
  from gg p(2) show "refcount (snd (get name True ps m)) name = Some r" by simp
  from gg p(3) show "\<exists>pre. calls (snd (get name True ps m)) = pre @ (if r = 0 then [Stop name] else [])"
    by simp
qed

lemma get_raise_is_await:
  assumes "map_of (svcs m) name = Some svc" and "refcount m name = Some r" and "0 \<le> r"
    and "fst (get name True ps m) = Raise E"
  shows "fst (await_ready ps (if r = 0 then start svc else svc)) = Raise E"
proof (cases "fst (await_ready ps (if r = 0 then start svc else svc))")
  case (Raise E')
  from get_failure(1) [OF assms(1-3) Raise] assms(4) show ?thesis using Raise by simp
next
  case (Return b)
  with assms(4) show ?thesis by (simp add: get_unfolded(1) [OF assms(1,2)])
next
  case Pending
  with assms(4) show ?thesis by (simp add: get_unfolded(1) [OF assms(1,2)])
qed

lemma put_calls: "\<exists>rest. calls (snd (put name m)) = calls m @ rest \<and> Start name \<notin> set rest"
  by (auto simp add: put_def Let_def calls_stored calls_logged split: option.splits)

lemma get_calls:
  assumes "map_of (svcs m) name = Some svc" and "refcount m name = Some r"
  shows "\<exists>rest. made m (snd (get name ready ps m)) = (if r = 0 then [Start name] else []) @ rest
           \<and> Start name \<notin> set rest"
proof -
  note g = get_unfolded [OF assms(1,2)]
  let ?m3 = "stored name (snd (await_ready ps (if r = 0 then start svc else svc)))
        (logged (AwaitReady name)
          (if r = 0
           then stored name (start svc) (logged (Start name) (m\<lparr>refs := AList.update name 1 (refs m)\<rparr>))
           else m\<lparr>refs := AList.update name (r + 1) (refs m)\<rparr>))"
  obtain rest where rest: "calls (snd (put name ?m3)) = calls ?m3 @ rest" "Start name \<notin> set rest"
    using put_calls [of name ?m3] by blast
  have "\<exists>rest. calls (snd (get name ready ps m))
      = (calls m @ (if r = 0 then [Start name] else [])) @ rest \<and> Start name \<notin> set rest"
  proof (cases ready)
    case False
    then show ?thesis using g(2) by (simp add: g(1))
  next
    case True
    show ?thesis
    proof (cases "fst (await_ready ps (if r = 0 then start svc else svc))")
      case (Return b)
      with True show ?thesis using g(2,3) by (simp add: g(1))
    next
      case Pending
      with True show ?thesis using g(2,3) by (simp add: g(1))
    next
      case (Raise E')
      with True rest show ?thesis using g(2,3)
        by (cases "put name ?m3") (auto simp add: g(1) split: outcome.splits)
    qed
  qed
  then show ?thesis by (auto simp add: made_def)
qed

text \<open>
  Claim C3. For \<^verbatim>\<open>get(name, ready=True)\<close> on a registered name whose count is not
  negative: if the readiness wait raises, \<^verbatim>\<open>get\<close> raises the same error after releasing
  the reference it took, so the count is what it was before the call (and when that was
  zero the release, being the last, ends with \<^verbatim>\<open>stop()\<close>). When the count was zero before
  the call, \<^verbatim>\<open>start()\<close> is the first call \<^verbatim>\<open>get\<close> makes on the service and it is made once;
  when the name was already referenced, \<^verbatim>\<open>get\<close> does not call \<^verbatim>\<open>start()\<close>.
\<close>

theorem C3_get_ready_failure:
  assumes "map_of (svcs m) name = Some svc" and "refcount m name = Some r" and "0 \<le> r"
  shows "(fst (await_ready ps (if r = 0 then start svc else svc)) = Raise E \<longrightarrow>
            fst (get name True ps m) = Raise E
            \<and> refcount (snd (get name True ps m)) name = Some r
            \<and> (r = 0 \<longrightarrow> last (made m (snd (get name True ps m))) = Stop name))
     \<and> (r = 0 \<longrightarrow> (\<exists>rest. made m (snd (get name ready ps m)) = Start name # rest
                         \<and> Start name \<notin> set rest))
     \<and> (0 < r \<longrightarrow> Start name \<notin> set (made m (snd (get name ready ps m))))"
proof -
  have fail: "fst (get name True ps m) = Raise E
            \<and> refcount (snd (get name True ps m)) name = Some r
            \<and> (r = 0 \<longrightarrow> last (made m (snd (get name True ps m))) = Stop name)"
    if f: "fst (await_ready ps (if r = 0 then start svc else svc)) = Raise E"
  proof -
    note gf = get_failure [OF assms f]
    from gf(3) obtain pre where pre: "calls (snd (get name True ps m))
        = pre @ (if r = 0 then [Stop name] else [])" by blast
    obtain rest where rest: "made m (snd (get name True ps m))
        = (if r = 0 then [Start name] else []) @ rest"
      using get_calls [OF assms(1,2), of True ps] by blast
    have "last (made m (snd (get name True ps m))) = Stop name" if z: "r = 0"
    proof -
      from pre z have l: "last (calls (snd (get name True ps m))) = Stop name" by simp
      from rest z have "made m (snd (get name True ps m)) \<noteq> []" by simp
      then have "length (calls m) < length (calls (snd (get name True ps m)))"
        by (simp add: made_def)
      with l show ?thesis by (simp add: made_def last_drop)
    qed
    with gf(1,2) show ?thesis by simp
  qed
  from get_calls [OF assms(1,2), of ready ps] fail show ?thesis by auto
qed

theorem C3_get_ready_failure_witness:
  "(let m = \<lparr>svcs = [(''A'', new_service 0)], refs = [(''A'', 0)], calls = []\<rparr>;
        p = \<lparr>p_reset = 1, p_wait = 1, p_woken = Timeout, p_check = 2,
              p_others = (\<lambda>s. s\<lparr>wanted := False\<rparr>)\<rparr>
    in map_of (svcs m) ''A'' = Some (new_service 0) \<and> refcount m ''A'' = Some 0
       \<and> fst (await_ready [p] (start (new_service 0))) = Raise ServiceStoppedError
       \<and> fst (get ''A'' True [p] m) = Raise ServiceStoppedError
       \<and> refcount (snd (get ''A'' True [p] m)) ''A'' = Some 0
       \<and> made m (snd (get ''A'' True [p] m)) = [Start ''A'', AwaitReady ''A'', Stop ''A''])"
proof -
  define m where "m = \<lparr>svcs = [(''A'', new_service 0)], refs = [(''A'', 0)], calls = []\<rparr>"
  define p where "p = \<lparr>p_reset = 1, p_wait = 1, p_woken = Timeout, p_check = 2,
              p_others = (\<lambda>s::service. s\<lparr>wanted := False\<rparr>)\<rparr>"
  have a: "map_of (svcs m) ''A'' = Some (new_service 0)" and b: "refcount m ''A'' = Some 0"
    by (simp_all add: m_def refcount_def)
  have c: "(0::int) \<le> 0" by simp
  have d: "fst (await_ready [p] (start (new_service 0))) = Raise ServiceStoppedError"
    by (simp add: p_def start_def new_service_def after_idle_def)
  have e: "made m (snd (get ''A'' True [p] m)) = [Start ''A'', AwaitReady ''A'', Stop ''A'']"
    by (simp add: get_def put_def made_def stored_def logged_def Let_def m_def p_def start_def
        new_service_def after_idle_def)
  from C3_get_ready_failure [OF a b c, of "[p]" ServiceStoppedError True] a b d e
  show ?thesis by (simp add: Let_def m_def p_def)
qed

lemma get_returns:
  assumes "map_of (svcs m) name = Some svc" and "refcount m name = Some r"
    and "get name ready ps m = (Return svc1, m1)"
  shows "refcount m1 name = Some (r + 1)"
proof -
  note g = get_unfolded [OF assms(1,2)]
  show ?thesis
  proof (cases ready)
    case False
    with assms(3) g(6) show ?thesis by (simp add: g(1))
  next
    case True
    show ?thesis
    proof (cases "fst (await_ready ps (if r = 0 then start svc else svc))")
      case (Return b)
      with True assms(3) g(5) show ?thesis by (auto simp add: g(1))
    next
      case Pending
      with True assms(3) show ?thesis by (simp add: g(1))
    next
      case (Raise E')
      with True assms(3) show ?thesis
        by (auto simp add: g(1) split: if_splits prod.splits outcome.splits)
    qed
  qed
qed

text \<open>
  Claim C8, as written: \<^verbatim>\<open>borrow\<close> restores the count to its value before the call on
  every exit path, the name staying registered. \<^verbatim>\<open>borrow\<close> releases one reference, the
  one it took, whatever the block did to the count. With \<^verbatim>\<open>'A'\<close> registered at count 2, a
  block that calls \<^verbatim>\<open>put('A')\<close> and returns leaves the count at 1, and a block that calls
  \<^verbatim>\<open>get('A', ready=False)\<close> and then raises leaves it at 3; the name is registered all
  along.
\<close>

theorem C8_counterexample:
  "refcount \<lparr>svcs = [(''A'', \<lparr>running = True, state = Running, wanted = True,
                                shutdown_flag = False, evt = \<lparr>deadline = 0, event = False\<rparr>\<rparr>)],
              refs = [(''A'', 2)], calls = []\<rparr> ''A'' = Some 2
   \<and> fst (borrow ''A'' [] (releasing ''A'')
         \<lparr>svcs = [(''A'', \<lparr>running = True, state = Running, wanted = True,
                            shutdown_flag = False, evt = \<lparr>deadline = 0, event = False\<rparr>\<rparr>)],
          refs = [(''A'', 2)], calls = []\<rparr>) = Return ()
   \<and> contains (snd (borrow ''A'' [] (releasing ''A'')
         \<lparr>svcs = [(''A'', \<lparr>running = True, state = Running, wanted = True,
                            shutdown_flag = False, evt = \<lparr>deadline = 0, event = False\<rparr>\<rparr>)],
          refs = [(''A'', 2)], calls = []\<rparr>)) ''A''
   \<and> refcount (snd (borrow ''A'' [] (releasing ''A'')
         \<lparr>svcs = [(''A'', \<lparr>running = True, state = Running, wanted = True,
                            shutdown_flag = False, evt = \<lparr>deadline = 0, event = False\<rparr>\<rparr>)],
          refs = [(''A'', 2)], calls = []\<rparr>)) ''A'' = Some 1
   \<and> fst (borrow ''A'' [] (taking_then_raising ''A'')
         \<lparr>svcs = [(''A'', \<lparr>running = True, state = Running, wanted = True,
                            shutdown_flag = False, evt = \<lparr>deadline = 0, event = False\<rparr>\<rparr>)],
          refs = [(''A'', 2)], calls = []\<rparr>) = Raise OtherException
   \<and> contains (snd (borrow ''A'' [] (taking_then_raising ''A'')
         \<lparr>svcs = [(''A'', \<lparr>running = True, state = Running, wanted = True,
                            shutdown_flag = False, evt = \<lparr>deadline = 0, event = False\<rparr>\<rparr>)],
          refs = [(''A'', 2)], calls = []\<rparr>)) ''A''
   \<and> refcount (snd (borrow ''A'' [] (taking_then_raising ''A'')
         \<lparr>svcs = [(''A'', \<lparr>running = True, state = Running, wanted = True,
                            shutdown_flag = False, evt = \<lparr>deadline = 0, event = False\<rparr>\<rparr>)],
          refs = [(''A'', 2)], calls = []\<rparr>)) ''A'' = Some 3"
  by (simp add: borrow_def get_def put_def releasing_def taking_then_raising_def stored_def
      logged_def contains_def refcount_def Let_def)

text \<open>
  Claim C8, amended. For a registered name whose count is not negative, \<^verbatim>\<open>borrow\<close>
  releases on every exit path of the block, also when the block raises, the one reference
  it took. If \<^verbatim>\<open>get\<close> raises, \<^verbatim>\<open>borrow\<close> raises the same error and the count is what it was
  before the call. Otherwise the block starts with the count one higher; when the block
  returns or raises, leaving the name registered and its count other than zero, \<^verbatim>\<open>borrow\<close>
  has the outcome of the block and the count is one less than the block left it. So the
  count after \<^verbatim>\<open>borrow\<close> is the count before the call when the block leaves the count as
  it found it.
\<close>

theorem C8_borrow_restores_refcount:
  assumes "map_of (svcs m) name = Some svc" and "refcount m name = Some r" and "0 \<le> r"
  shows "(fst (get name True ps m) = Raise E \<longrightarrow>
            fst (borrow name ps body m) = Raise E
            \<and> refcount (snd (borrow name ps body m)) name = Some r)
     \<and> (get name True ps m = (Return svc1, m1) \<longrightarrow> refcount m1 name = Some (r + 1))
     \<and> (get name True ps m = (Return svc1, m1) \<longrightarrow> body svc1 m1 = (out, m2) \<longrightarrow>
            out \<noteq> Pending \<longrightarrow> contains m2 name \<longrightarrow> refcount m2 name = Some k \<longrightarrow> k \<noteq> 0 \<longrightarrow>
            fst (borrow name ps body m) = out
            \<and> refcount (snd (borrow name ps body m)) name = Some (k - 1))
     \<and> (get name True ps m = (Return svc1, m1) \<longrightarrow> body svc1 m1 = (out, m2) \<longrightarrow>
            out \<noteq> Pending \<longrightarrow> contains m2 name \<longrightarrow> refcount m2 name = refcount m1 name \<longrightarrow>
            fst (borrow name ps body m) = out
            \<and> refcount (snd (borrow name ps body m)) name = Some r)"
proof -
  have failed: "fst (borrow name ps body m) = Raise E
            \<and> refcount (snd (borrow name ps body m)) name = Some r"
    if f: "fst (get name True ps m) = Raise E"
  proof -
    from get_raise_is_await [OF assms f]
    have "refcount (snd (get name True ps m)) name = Some r"
      by (rule get_failure(2) [OF assms])
    with f show ?thesis
      by (cases "get name True ps m") (simp add: borrow_def)
  qed
  have entered: "refcount m1 name = Some (r + 1)" if g: "get name True ps m = (Return svc1, m1)"
    using get_returns [OF assms(1,2) g] .
  have left: "fst (borrow name ps body m) = out
            \<and> refcount (snd (borrow name ps body m)) name = Some (k' - 1)"
    if g: "get name True ps m = (Return svc1, m1)" and b: "body svc1 m1 = (out, m2)"
      and np: "out \<noteq> Pending" and c: "contains m2 name" and k: "refcount m2 name = Some k'"
      and nz: "k' \<noteq> 0" for k'
  proof -
    from c obtain svc2 where s2: "map_of (svcs m2) name = Some svc2"
      by (auto simp add: contains_def)
    note p = put_releases [OF s2 k nz]
    obtain m3 where p3: "put name m2 = (Return (), m3)"
      using p(1) by (cases "put name m2") auto
    with p(2) have r3: "refcount m3 name = Some (k' - 1)" by simp
    have "borrow name ps body m = (out, m3)"
      using g b p3 np by (cases out) (simp_all add: borrow_def)
    with r3 show ?thesis by simp
  qed
  have neutral: "fst (borrow name ps body m) = out
            \<and> refcount (snd (borrow name ps body m)) name = Some r"
    if g: "get name True ps m = (Return svc1, m1)" and b: "body svc1 m1 = (out, m2)"
      and np: "out \<noteq> Pending" and c: "contains m2 name"
      and same: "refcount m2 name = refcount m1 name"
  proof -
    from same entered [OF g] have k: "refcount m2 name = Some (r + 1)" by simp
    from assms(3) have "r + 1 \<noteq> 0" by simp
    from left [OF g b np c k this] show ?thesis by simp
  qed
  from failed entered left [of k] neutral show ?thesis by blast
qed

theorem C8_borrow_restores_refcount_witness:
  "(let a = \<lparr>running = True, state = Running, wanted = True, shutdown_flag = False,
              evt = \<lparr>deadline = 0, event = False\<rparr>\<rparr>;
        m = \<lparr>svcs = [(''A'', a)], refs = [(''A'', 2)], calls = []\<rparr>;
        m1 = m\<lparr>refs := [(''A'', 3)], calls := [AwaitReady ''A'']\<rparr>;
        failing = (\<lambda>svc m. (Raise OtherException :: unit outcome, m))
    in map_of (svcs m) ''A'' = Some a \<and> refcount m ''A'' = Some 2
       \<and> get ''A'' True [] m = (Return a, m1)
       \<and> failing a m1 = (Raise OtherException, m1)
       \<and> contains m1 ''A''
       \<and> fst (borrow ''A'' [] failing m) = Raise OtherException
       \<and> refcount (snd (borrow ''A'' [] failing m)) ''A'' = Some 2)"
proof -
  define a where "a = \<lparr>running = True, state = Running, wanted = True, shutdown_flag = False,
              evt = \<lparr>deadline = 0, event = False\<rparr>\<rparr>"
  define m where "m = \<lparr>svcs = [(''A'', a)], refs = [(''A'', 2)], calls = []\<rparr>"
  define m1 where "m1 = m\<lparr>refs := [(''A'', 3)], calls := [AwaitReady ''A'']\<rparr>"
  define failing where "failing = (\<lambda>(svc::service) (m::manager). (Raise OtherException :: unit outcome, m))"
  have l: "map_of (svcs m) ''A'' = Some a" and b: "refcount m ''A'' = Some 2"
    by (simp_all add: m_def refcount_def)
  have c: "(0::int) \<le> 2" by simp
  have g: "get ''A'' True [] m = (Return a, m1)"
    by (simp add: get_def stored_def logged_def Let_def m_def m1_def a_def)
  have f: "failing a m1 = (Raise OtherException, m1)"
    by (simp add: failing_def)
  have d: "contains m1 ''A''"
    by (simp add: contains_def m1_def m_def)
  from C8_borrow_restores_refcount [OF l b c, of "[]" ServiceStoppedError failing a m1
      "Raise OtherException" m1 3] l b g f d
  show ?thesis by (simp add: Let_def m_def m1_def a_def failing_def)
qed

subsection \<open>What every sequence of calls preserves\<close>

lemma manager_ok_logged: "manager_ok (logged c m) = manager_ok m"
  by (simp add: manager_ok_def logged_def names_def refcount_def)

lemma lookup_names: "map_of (svcs m) name \<noteq> None \<longleftrightarrow> name \<in> set (names m)"
  using map_of_eq_None_iff [of "svcs m" name] by (auto simp add: names_def)

lemma names_stored: "map_of (svcs m) name \<noteq> None \<Longrightarrow> names (stored name svc m) = names m"
  using lookup_names [of m name] by (simp add: names_def stored_def update_keys)

lemma manager_ok_stored:
  "map_of (svcs m) name \<noteq> None \<Longrightarrow> manager_ok (stored name svc m) = manager_ok m"
  by (simp add: manager_ok_def names_stored refs_stored refcount_def)

lemma manager_ok_count:
  assumes "manager_ok m" and "map_of (svcs m) name \<noteq> None" and "0 \<le> v"
  shows "manager_ok (m\<lparr>refs := AList.update name v (refs m)\<rparr>)"
proof -
  from assms(2) have "name \<in> set (names m)"
    using lookup_names by blast
  with assms(1,3) show ?thesis
    by (auto simp add: manager_ok_def names_def refcount_def update_keys update_conv'
        simp del: map_of_eq_Some_iff)
qed

lemma register_ok: "manager_ok m \<Longrightarrow> manager_ok (snd (register name svc m))"
proof (cases "contains m name")
  case True
  assume "manager_ok m"
  with True show ?thesis by (simp add: register_def)
next
  case False
  assume ok: "manager_ok m"
  from False have "name \<notin> set (names m)"
    by (simp add: contains_def names_def map_of_eq_None_iff)
  with ok False show ?thesis
    by (auto simp add: register_def manager_ok_def names_def refcount_def update_keys
        update_conv' simp del: map_of_eq_Some_iff)
qed

lemma unregister_ok: "manager_ok m \<Longrightarrow> manager_ok (snd (unregister name m))"
  by (auto simp add: unregister_def manager_ok_def names_def refcount_def delete_keys
      delete_conv' distinct_removeAll simp del: map_of_eq_Some_iff
      split: option.splits if_splits)

lemma put_ok: "manager_ok m \<Longrightarrow> manager_ok (snd (put name m))"
proof (cases "map_of (svcs m) name")
  case None
  assume "manager_ok m"
  with None show ?thesis by (simp add: put_def)
next
  case (Some svc)
  assume ok: "manager_ok m"
  show ?thesis
  proof (cases "map_of (refs m) name")
    case None
    with Some ok show ?thesis by (simp add: put_def)
  next
    case r: (Some r)
    with ok have nonneg: "0 \<le> r" by (simp add: manager_ok_def refcount_def)
    show ?thesis
    proof (cases "r = 0")
      case True
      with Some r ok show ?thesis by (simp add: put_def)
    next
      case False
      with nonneg have "0 \<le> r - 1" by simp
      from manager_ok_count [OF ok _ this, of name] Some
      have okc: "manager_ok (m\<lparr>refs := AList.update name (r - 1) (refs m)\<rparr>)" by simp
      with Some r False show ?thesis
        by (auto simp add: put_def Let_def manager_ok_stored manager_ok_logged svcs_logged)
    qed
  qed
qed

lemma get_ok: "manager_ok m \<Longrightarrow> manager_ok (snd (get name ready ps m))"
proof (cases "map_of (svcs m) name")
  case None
  assume "manager_ok m"
  with None show ?thesis by (simp add: get_def)
next
  case (Some svc)
  assume ok: "manager_ok m"
  show ?thesis
  proof (cases "map_of (refs m) name")
    case None
    with Some ok show ?thesis by (simp add: get_def)
  next
    case r: (Some r)
    with ok have nonneg: "0 \<le> r + 1" by (simp add: manager_ok_def refcount_def)
    from manager_ok_count [OF ok _ this, of name] Some
    have ok1: "manager_ok (m\<lparr>refs := AList.update name (r + 1) (refs m)\<rparr>)" by simp
    define svc1 where "svc1 = (if r = 0 then start svc else svc)"
    define m2 where "m2 = (if r = 0
      then stored name (start svc) (logged (Start name) (m\<lparr>refs := AList.update name 1 (refs m)\<rparr>))
      else m\<lparr>refs := AList.update name (r + 1) (refs m)\<rparr>)"
    define m3 where "m3 = stored name (snd (await_ready ps svc1)) (logged (AwaitReady name) m2)"
    from r have rc: "refcount m name = Some r" by (simp add: refcount_def)
    note g1 = get_unfolded(1) [OF Some rc, where ps = ps, folded svc1_def m2_def, folded m3_def]
    note g7 = get_unfolded(7) [OF Some rc, folded m2_def]
    have ok2: "manager_ok m2"
      using ok1 Some by (auto simp add: m2_def manager_ok_stored manager_ok_logged svcs_logged)
    have ok3: "manager_ok m3"
      using ok2 g7 by (simp add: m3_def manager_ok_stored manager_ok_logged svcs_logged)
    have ok4: "manager_ok (snd (put name m3))"
      by (rule put_ok [OF ok3])
    show ?thesis
    proof (cases ready)
      case False
      with ok2 show ?thesis by (simp add: g1)
    next
      case True
      show ?thesis
      proof (cases "fst (await_ready ps svc1)")
        case (Return b)
        with True ok3 show ?thesis by (simp add: g1)
      next
        case Pending
        with True ok3 show ?thesis by (simp add: g1)
      next
        case (Raise E)
        with True ok3 ok4 show ?thesis
          by (cases "put name m3") (auto simp add: g1 split: outcome.splits)
      qed
    qed
  qed
qed

lemma exec_op_ok: "manager_ok m \<Longrightarrow> manager_ok (exec_op op m)"
  by (cases op) (simp_all add: register_ok unregister_ok get_ok put_ok)

lemma exec_ops_ok: "manager_ok m \<Longrightarrow> manager_ok (exec_ops ops m)"
  unfolding exec_ops_def by (induction ops arbitrary: m) (simp_all add: exec_op_ok)

lemma new_manager_ok: "manager_ok new_manager"
  by (simp add: manager_ok_def new_manager_def names_def refcount_def)

text \<open>
  Claim C5. After any sequence of \<^verbatim>\<open>register\<close>, \<^verbatim>\<open>unregister\<close>, \<^verbatim>\<open>get\<close> and \<^verbatim>\<open>put\<close>
  calls on a new manager, whatever their outcomes: the count of every name is at least
  zero; \<^verbatim>\<open>unregister\<close> of a name whose count is above zero fails with the service error and
  changes nothing; and \<^verbatim>\<open>svcs\<close> and \<^verbatim>\<open>refs\<close> hold exactly the same names.
\<close>

theorem C5_refcount_invariant:
  "(\<forall>r. refcount (exec_ops ops new_manager) name = Some r \<longrightarrow>
        0 \<le> r
        \<and> (0 < r \<longrightarrow> unregister name (exec_ops ops new_manager)
                        = (Raise ServiceError, exec_ops ops new_manager)))
   \<and> set (map fst (svcs (exec_ops ops new_manager))) = set (map fst (refs (exec_ops ops new_manager)))
   \<and> (contains (exec_ops ops new_manager) name \<longleftrightarrow> refcount (exec_ops ops new_manager) name \<noteq> None)"
proof -
  let ?m = "exec_ops ops new_manager"
  have ok: "manager_ok ?m" by (rule exec_ops_ok [OF new_manager_ok])
  then have keys: "map fst (refs ?m) = map fst (svcs ?m)"
    by (simp add: manager_ok_def names_def)
  then have same: "contains ?m name \<longleftrightarrow> refcount ?m name \<noteq> None"
    by (metis contains_def refcount_def map_of_eq_None_iff set_map)
  have "0 \<le> r \<and> (0 < r \<longrightarrow> unregister name ?m = (Raise ServiceError, ?m))"
    if r: "refcount ?m name = Some r" for r
  proof -
    from ok r have "0 \<le> r" by (simp add: manager_ok_def)
    moreover from r same have "contains ?m name" by simp
    with r have "0 < r \<longrightarrow> unregister name ?m = (Raise ServiceError, ?m)"
      by (simp add: unregister_def refcount_def)
    ultimately show ?thesis by simp
  qed
  with keys same show ?thesis by simp
qed

theorem C5_refcount_invariant_witness:
  "(let ops = [Register ''A'' (new_service 0), Get ''A'' False [], Get ''A'' False [], Put ''A'',
               Unregister ''A'', Put ''B''];
        m = exec_ops ops new_manager
    in refcount m ''A'' = Some 1 \<and> (0::int) \<le> 1
       \<and> unregister ''A'' m = (Raise ServiceError, m)
       \<and> map fst (svcs m) = [''A''] \<and> map fst (refs m) = [''A'']
       \<and> contains m ''A'')"
proof -
  define ops where "ops = [Register ''A'' (new_service 0), Get ''A'' False [], Get ''A'' False [],
               Put ''A'', Unregister ''A'', Put ''B'']"
  define m where "m = exec_ops ops new_manager"
  have r: "refcount m ''A'' = Some 1"
    by (simp add: m_def ops_def exec_ops_def new_manager_def register_def get_def put_def
        unregister_def contains_def refcount_def stored_def logged_def Let_def)
  have k: "map fst (svcs m) = [''A''] \<and> map fst (refs m) = [''A'']"
    by (simp add: m_def ops_def exec_ops_def new_manager_def register_def get_def put_def
        unregister_def contains_def refcount_def stored_def logged_def Let_def)
  from C5_refcount_invariant [of ops "''A''"] r k
  show ?thesis by (simp add: Let_def m_def [symmetric] ops_def [symmetric])
qed

subsection \<open>The shutdown hook\<close>

lemma names_logged: "names (logged c m) = names m"
  by (simp add: names_def logged_def)

lemma names_stored_in: "name \<in> set (names m) \<Longrightarrow> names (stored name svc m) = names m"
  using names_stored lookup_names by blast

lemma stop_all_facts:
  "set (map fst xs) \<subseteq> set (names m) \<Longrightarrow>
     calls (stop_all xs m)
       = calls m @ map Stop (map fst (filter (\<lambda>(name, svc). state svc \<noteq> Stopped) xs))
     \<and> refs (stop_all xs m) = refs m \<and> names (stop_all xs m) = names m"
proof (induction xs arbitrary: m)
  case Nil
  then show ?case by simp
next
  case (Cons x xs)
  obtain name svc where x: "x = (name, svc)" by (cases x)
  let ?m = "stored name (stop svc) (logged (Stop name) m)"
  from Cons.prems x have n: "names ?m = names m"
    by (simp add: names_stored_in names_logged)
  with Cons.prems have "set (map fst xs) \<subseteq> set (names ?m)" by simp
  from Cons.IH [OF this] Cons.IH [of m] Cons.prems x n show ?case
    by (simp add: calls_stored calls_logged refs_stored refs_logged)
qed

lemma await_stopped_no_raise: "fst (await_stopped ps s) \<noteq> Raise E"
  by (induction ps arbitrary: s) simp_all

lemma await_all_frame:
  "set (map fst xs) \<subseteq> set (names m) \<Longrightarrow>
     fst (await_all P xs m) \<noteq> Raise E
     \<and> refs (snd (await_all P xs m)) = refs m \<and> names (snd (await_all P xs m)) = names m"
proof (induction xs arbitrary: m)
  case Nil
  then show ?case by simp
next
  case (Cons x xs)
  obtain name svc where x: "x = (name, svc)" by (cases x)
  obtain out svc1 where a: "await_stopped (P name) svc = (out, svc1)"
    by (cases "await_stopped (P name) svc")
  let ?m = "stored name svc1 (logged (AwaitStopped name) (logged (TraceThread name) m))"
  from Cons.prems x have n: "names ?m = names m"
    by (simp add: names_stored_in names_logged)
  have r: "refs ?m = refs m"
    by (simp add: refs_stored refs_logged)
  from Cons.prems n have "set (map fst xs) \<subseteq> set (names ?m)" by simp
  note IH = Cons.IH [OF this]
  show ?case
  proof (cases out)
    case (Return b)
    with IH x a n r show ?thesis by simp
  next
    case (Raise E')
    with a await_stopped_no_raise [of "P name" svc E'] show ?thesis by simp
  next
    case Pending
    with x a n r show ?thesis by simp
  qed
qed

lemma await_all_calls:
  "\<exists>seen. prefix seen (map fst xs)
        \<and> calls (snd (await_all P xs m))
            = calls m @ concat (map (\<lambda>name. [TraceThread name, AwaitStopped name]) seen)
        \<and> (fst (await_all P xs m) = Return () \<longrightarrow> seen = map fst xs)"
proof (induction xs arbitrary: m)
  case Nil
  then show ?case by simp
next
  case (Cons x xs)
  obtain name svc where x: "x = (name, svc)" by (cases x)
  obtain out svc1 where a: "await_stopped (P name) svc = (out, svc1)"
    by (cases "await_stopped (P name) svc")
  let ?m = "stored name svc1 (logged (AwaitStopped name) (logged (TraceThread name) m))"
  have c: "calls ?m = calls m @ [TraceThread name, AwaitStopped name]"
    by (simp add: calls_stored calls_logged)
  show ?case
  proof (cases out)
    case (Return b)
    from Cons.IH [of ?m] obtain seen where seen: "prefix seen (map fst xs)"
      "calls (snd (await_all P xs ?m))
         = calls ?m @ concat (map (\<lambda>name. [TraceThread name, AwaitStopped name]) seen)"
      "fst (await_all P xs ?m) = Return () \<longrightarrow> seen = map fst xs"
      by blast
    have "prefix (name # seen) (map fst (x # xs))
        \<and> calls (snd (await_all P (x # xs) m))
            = calls m @ concat (map (\<lambda>name. [TraceThread name, AwaitStopped name]) (name # seen))
        \<and> (fst (await_all P (x # xs) m) = Return () \<longrightarrow> name # seen = map fst (x # xs))"
      using seen x a Return c by simp
    then show ?thesis by (rule exI)
  next
    case (Raise E')
    with a await_stopped_no_raise [of "P name" svc E'] show ?thesis by simp
  next
    case Pending
    have "prefix [name] (map fst (x # xs))
        \<and> calls (snd (await_all P (x # xs) m))
            = calls m @ concat (map (\<lambda>name. [TraceThread name, AwaitStopped name]) [name])
        \<and> (fst (await_all P (x # xs) m) = Return () \<longrightarrow> [name] = map fst (x # xs))"
      using x a Pending c by simp
    then show ?thesis by (rule exI)
  qed
qed

lemma shutdown_no_raise: "fst (shutdown ps s) \<noteq> Raise E"
  using await_stopped_no_raise [of ps "stop s" E]
  by (cases "await_stopped ps (stop s)") (auto simp add: shutdown_def split: outcome.splits)

lemma shutdown_all_frame:
  "set (map fst xs) \<subseteq> set (names m) \<Longrightarrow>
     fst (shutdown_all P xs m) \<noteq> Raise E
     \<and> refs (snd (shutdown_all P xs m)) = refs m \<and> names (snd (shutdown_all P xs m)) = names m"
proof (induction xs arbitrary: m)
  case Nil
  then show ?case by simp
next
  case (Cons x xs)
  obtain name svc where x: "x = (name, svc)" by (cases x)
  obtain out svc1 where a: "shutdown (P name) svc = (out, svc1)"
    by (cases "shutdown (P name) svc")
  let ?m = "stored name svc1 (logged (Shutdown name) m)"
  from Cons.prems x have n: "names ?m = names m"
    by (simp add: names_stored_in names_logged)
  have r: "refs ?m = refs m"
    by (simp add: refs_stored refs_logged)
  from Cons.prems n have "set (map fst xs) \<subseteq> set (names ?m)" by simp
  note IH = Cons.IH [OF this]
  show ?case
  proof (cases out)
    case (Return b)
    with IH x a n r show ?thesis by simp
  next
    case (Raise E')
    with a shutdown_no_raise [of "P name" svc E'] show ?thesis by simp
  next
    case Pending
    with x a n r show ?thesis by simp
  qed
qed

lemma shutdown_all_calls:
  "\<exists>seen. prefix seen (map fst xs)
        \<and> calls (snd (shutdown_all P xs m)) = calls m @ map Shutdown seen
        \<and> (fst (shutdown_all P xs m) = Return () \<longrightarrow> seen = map fst xs)"
proof (induction xs arbitrary: m)
  case Nil
  then show ?case by simp
next
  case (Cons x xs)
  obtain name svc where x: "x = (name, svc)" by (cases x)
  obtain out svc1 where a: "shutdown (P name) svc = (out, svc1)"
    by (cases "shutdown (P name) svc")
  let ?m = "stored name svc1 (logged (Shutdown name) m)"
  have c: "calls ?m = calls m @ [Shutdown name]"
    by (simp add: calls_stored calls_logged)
  show ?case
  proof (cases out)
    case (Return b)
    from Cons.IH [of ?m] obtain seen where seen: "prefix seen (map fst xs)"
      "calls (snd (shutdown_all P xs ?m)) = calls ?m @ map Shutdown seen"
      "fst (shutdown_all P xs ?m) = Return () \<longrightarrow> seen = map fst xs"
      by blast
    have "prefix (name # seen) (map fst (x # xs))
        \<and> calls (snd (shutdown_all P (x # xs) m)) = calls m @ map Shutdown (name # seen)
        \<and> (fst (shutdown_all P (x # xs) m) = Return () \<longrightarrow> name # seen = map fst (x # xs))"
      using seen x a Return c by simp
    then show ?thesis by (rule exI)
  next
    case (Raise E')
    with a shutdown_no_raise [of "P name" svc E'] show ?thesis by simp
  next
    case Pending
    have "prefix [name] (map fst (x # xs))
        \<and> calls (snd (shutdown_all P (x # xs) m)) = calls m @ map Shutdown [name]
        \<and> (fst (shutdown_all P (x # xs) m) = Return () \<longrightarrow> [name] = map fst (x # xs))"
      using x a Pending c by simp
    then show ?thesis by (rule exI)
  qed
qed

lemma dump_counted:
  "list_all (\<lambda>name. refcount m name \<noteq> None) (names m) \<Longrightarrow> dump m = (Return (), logged Dump m)"
  by (simp add: dump_def refcount_def)

lemma counted_frame:
  "names m' = names m \<Longrightarrow> refs m' = refs m \<Longrightarrow>
     list_all (\<lambda>name. refcount m name \<noteq> None) (names m) \<Longrightarrow>
     list_all (\<lambda>name. refcount m' name \<noteq> None) (names m')"
  by (simp add: refcount_def)

lemma prefix_concat_map: "prefix xs ys \<Longrightarrow> prefix (concat (map f xs)) (concat (map f ys))"
  by (auto simp add: prefix_def)

lemma atexit_calls:
  assumes counted: "list_all (\<lambda>name. refcount m name \<noteq> None) (names m)"
  shows "\<exists>cs. calls (snd (atexit P2 P3 m)) = calls m @ cs
           \<and> prefix cs (shutdown_sequence m)
           \<and> (fst (atexit P2 P3 m) = Return () \<longrightarrow> cs = shutdown_sequence m)"
    and "names (snd (atexit P2 P3 m)) = names m"
    and "refs (snd (atexit P2 P3 m)) = refs m"
    and "fst (atexit P2 P3 m) \<noteq> Raise E"
proof -
  define evs where "evs = (\<lambda>name. [TraceThread name, AwaitStopped name])"
  define m2 where "m2 = logged TraceAllThreads (logged Dump m)"
  define m3 where "m3 = stop_all (svcs m2) m2"
  define m4 where "m4 = logged Dump m3"
  define m5 where "m5 = snd (await_all P2 (svcs m4) m4)"
  define m6 where "m6 = logged Dump m5"
  define A where "A = [Dump, TraceAllThreads] @ map Stop (unstopped m) @ [Dump]"
  have seq: "shutdown_sequence m = A @ concat (map evs (names m)) @ [Dump] @ map Shutdown (names m)"
    by (simp add: shutdown_sequence_def A_def evs_def)
  have s2: "svcs m2 = svcs m" and n2: "names m2 = names m" and r2: "refs m2 = refs m"
    and c2: "calls m2 = calls m @ [Dump, TraceAllThreads]"
    by (simp_all add: m2_def logged_def names_def)
  have "set (map fst (svcs m2)) \<subseteq> set (names m2)" by (simp add: names_def)
  from stop_all_facts [OF this]
  have c3: "calls m3 = calls m @ [Dump, TraceAllThreads] @ map Stop (unstopped m)"
    and r3: "refs m3 = refs m" and n3: "names m3 = names m"
    by (simp_all add: m3_def c2 r2 n2 s2 unstopped_def)
  have d3: "dump m3 = (Return (), m4)"
    unfolding m4_def by (rule dump_counted [OF counted_frame [OF n3 r3 counted]])
  have c4: "calls m4 = calls m @ A" and r4: "refs m4 = refs m" and n4: "names m4 = names m"
    by (simp_all add: m4_def c3 r3 n3 A_def calls_logged refs_logged names_logged)
  have sub4: "set (map fst (svcs m4)) \<subseteq> set (names m4)" by (simp add: names_def)
  from await_all_frame [OF sub4, of P2]
  have nr5: "fst (await_all P2 (svcs m4) m4) \<noteq> Raise E'" and r5: "refs m5 = refs m"
    and n5: "names m5 = names m" for E'
    by (simp_all add: m5_def r4 n4)
  from await_all_calls [of "svcs m4" P2 m4] obtain seen2 where seen2:
    "prefix seen2 (names m)" "calls m5 = calls m @ A @ concat (map evs seen2)"
    "fst (await_all P2 (svcs m4) m4) = Return () \<longrightarrow> seen2 = names m"
    using n4 by (auto simp add: m5_def c4 evs_def names_def)
  have d5: "dump m5 = (Return (), m6)"
    unfolding m6_def by (rule dump_counted [OF counted_frame [OF n5 r5 counted]])
  have c6: "calls m6 = calls m5 @ [Dump]" and r6: "refs m6 = refs m" and n6: "names m6 = names m"
    by (simp_all add: m6_def r5 n5 calls_logged refs_logged names_logged)
  have sub6: "set (map fst (svcs m6)) \<subseteq> set (names m6)" by (simp add: names_def)
  from shutdown_all_frame [OF sub6, of P3]
  have nr7: "fst (shutdown_all P3 (svcs m6) m6) \<noteq> Raise E'"
    and r7: "refs (snd (shutdown_all P3 (svcs m6) m6)) = refs m"
    and n7: "names (snd (shutdown_all P3 (svcs m6) m6)) = names m" for E'
    by (simp_all add: r6 n6)
  from shutdown_all_calls [of "svcs m6" P3 m6] obtain seen3 where seen3:
    "prefix seen3 (names m)"
    "calls (snd (shutdown_all P3 (svcs m6) m6)) = calls m6 @ map Shutdown seen3"
    "fst (shutdown_all P3 (svcs m6) m6) = Return () \<longrightarrow> seen3 = names m"
    using n6 by (auto simp add: names_def)
  have unfold: "atexit P2 P3 m =
      (case await_all P2 (svcs m4) m4 of
         (Raise E, m5) \<Rightarrow> (Raise E, m5)
       | (Pending, m5) \<Rightarrow> (Pending, m5)
       | (Return u3, m5') \<Rightarrow> shutdown_all P3 (svcs m6) m6)"
    using dump_counted [OF counted] d3 d5
    by (auto simp add: atexit_def Let_def m2_def [symmetric] m3_def [symmetric] m5_def m6_def
        split: prod.splits outcome.splits)
  show "\<exists>cs. calls (snd (atexit P2 P3 m)) = calls m @ cs
           \<and> prefix cs (shutdown_sequence m)
           \<and> (fst (atexit P2 P3 m) = Return () \<longrightarrow> cs = shutdown_sequence m)"
  proof (cases "fst (await_all P2 (svcs m4) m4)")
    case (Return u)
    then have at: "atexit P2 P3 m = shutdown_all P3 (svcs m6) m6"
      by (cases "await_all P2 (svcs m4) m4") (simp add: unfold)
    from Return seen2 have full2: "calls m5 = calls m @ A @ concat (map evs (names m))" by simp
    let ?cs = "A @ concat (map evs (names m)) @ [Dump] @ map Shutdown seen3"
    have "calls (snd (atexit P2 P3 m)) = calls m @ ?cs"
      by (simp add: at seen3(2) c6 full2)
    moreover have "prefix ?cs (shutdown_sequence m)"
      using seen3(1) by (simp add: seq map_mono_prefix)
    moreover have "fst (atexit P2 P3 m) = Return () \<longrightarrow> ?cs = shutdown_sequence m"
      using seen3(3) by (simp add: at seq)
    ultimately show ?thesis by blast
  next
    case (Raise E')
    with nr5 [of E'] show ?thesis by simp
  next
    case Pending
    then have at: "atexit P2 P3 m = (Pending, m5)"
      by (cases "await_all P2 (svcs m4) m4") (simp add: unfold m5_def)
    let ?cs = "A @ concat (map evs seen2)"
    have "calls (snd (atexit P2 P3 m)) = calls m @ ?cs"
      by (simp add: at seen2(2))
    moreover have "prefix ?cs (shutdown_sequence m)"
      using prefix_concat_map [OF seen2(1), of evs]
      by (simp add: seq)
    moreover have "fst (atexit P2 P3 m) = Return () \<longrightarrow> ?cs = shutdown_sequence m"
      by (simp add: at)
    ultimately show ?thesis by blast
  qed
  show "names (snd (atexit P2 P3 m)) = names m"
    using n5 n7 nr5
    by (cases "await_all P2 (svcs m4) m4") (auto simp add: unfold m5_def split: outcome.splits)
  show "refs (snd (atexit P2 P3 m)) = refs m"
    using r5 r7 nr5
    by (cases "await_all P2 (svcs m4) m4") (auto simp add: unfold m5_def split: outcome.splits)
  show "fst (atexit P2 P3 m) \<noteq> Raise E"
    using nr5 nr7
    by (cases "await_all P2 (svcs m4) m4") (auto simp add: unfold split: outcome.splits)
qed

lemma register_appends:
  "\<not> contains m name \<Longrightarrow> names (snd (register name svc m)) = names m @ [name]"
  using lookup_names [of m name]
  by (simp add: register_def contains_def names_def update_keys)

lemma in_prefix_past:
  assumes "prefix cs (xs @ ys)" and "c \<in> set cs" and "c \<notin> set xs"
  shows "set xs \<subseteq> set cs"
proof -
  from assms(1) have "prefix cs xs \<or> (\<exists>us. cs = xs @ us)"
    by (auto simp add: prefix_append)
  with assms(2,3) show ?thesis
    by (auto dest: set_mono_prefix)
qed

text \<open>
  Claim C7. For a manager in which every registered name has a count: the calls \<^verbatim>\<open>atexit\<close>
  makes are, in this order, the shutdown sequence of the specification, up to the call
  that does not come back if there is one, and all of it when \<^verbatim>\<open>atexit\<close> returns. So once
  \<^verbatim>\<open>shutdown()\<close> has been called on any service, \<^verbatim>\<open>await_stopped()\<close> has been called on every
  registered service and \<^verbatim>\<open>stop()\<close> on every one that was not \<open>Stopped\<close>. The names and the
  counts are as before, a dump changes neither the services nor the counts, and the order
  of the names is the order of registration: \<^verbatim>\<open>register\<close> appends.
\<close>

theorem C7_atexit_order:
  assumes "list_all (\<lambda>name. refcount m name \<noteq> None) (names m)"
  shows "prefix (made m (snd (atexit P2 P3 m))) (shutdown_sequence m)
     \<and> (fst (atexit P2 P3 m) = Return () \<longrightarrow>
          made m (snd (atexit P2 P3 m)) = shutdown_sequence m)
     \<and> (Shutdown x \<in> set (made m (snd (atexit P2 P3 m))) \<longrightarrow>
          (\<forall>n \<in> set (names m). AwaitStopped n \<in> set (made m (snd (atexit P2 P3 m))))
          \<and> (\<forall>n \<in> set (unstopped m). Stop n \<in> set (made m (snd (atexit P2 P3 m)))))
     \<and> names (snd (atexit P2 P3 m)) = names m \<and> refs (snd (atexit P2 P3 m)) = refs m
     \<and> svcs (snd (dump m)) = svcs m \<and> refs (snd (dump m)) = refs m
     \<and> (\<not> contains m name \<longrightarrow> names (snd (register name svc m)) = names m @ [name])"
proof -
  let ?made = "made m (snd (atexit P2 P3 m))"
  let ?before = "[Dump, TraceAllThreads] @ map Stop (unstopped m)
     @ [Dump] @ concat (map (\<lambda>name. [TraceThread name, AwaitStopped name]) (names m)) @ [Dump]"
  note a = atexit_calls [OF assms, of P2 P3]
  from a(1) obtain cs where cs: "calls (snd (atexit P2 P3 m)) = calls m @ cs"
    "prefix cs (shutdown_sequence m)" "fst (atexit P2 P3 m) = Return () \<longrightarrow> cs = shutdown_sequence m"
    by blast
  from cs(1) have made: "?made = cs" by (simp add: made_def)
  have seq: "shutdown_sequence m = ?before @ map Shutdown (names m)"
    by (simp add: shutdown_sequence_def)
  have order: "(\<forall>n \<in> set (names m). AwaitStopped n \<in> set cs)
          \<and> (\<forall>n \<in> set (unstopped m). Stop n \<in> set cs)" if x: "Shutdown x \<in> set cs"
  proof -
    have "Shutdown x \<notin> set ?before" by auto
    from in_prefix_past [OF cs(2) [unfolded seq] x this] show ?thesis by auto
  qed
  have "svcs (snd (dump m)) = svcs m \<and> refs (snd (dump m)) = refs m"
    by (simp add: dump_def logged_def)
  with made cs(2,3) order a(2,3) register_appends [of m name svc] show ?thesis by simp
qed

theorem C7_atexit_order_witness:
  "(let a = \<lparr>running = True, state = Running, wanted = True, shutdown_flag = False,
              evt = \<lparr>deadline = 0, event = False\<rparr>\<rparr>;
        b = new_service 0;
        m = \<lparr>svcs = [(''A'', a), (''B'', b)], refs = [(''A'', 1), (''B'', 0)], calls = []\<rparr>;
        p = \<lparr>p_reset = 1, p_wait = 1, p_woken = Timeout, p_check = 2,
              p_others = (\<lambda>s. s\<lparr>state := Stopped\<rparr>)\<rparr>
    in list_all (\<lambda>name. refcount m name \<noteq> None) (names m)
       \<and> fst (atexit (\<lambda>n. [p]) (\<lambda>n. []) m) = Return ()
       \<and> made m (snd (atexit (\<lambda>n. [p]) (\<lambda>n. []) m))
           = [Dump, TraceAllThreads, Stop ''A'', Dump,
              TraceThread ''A'', AwaitStopped ''A'', TraceThread ''B'', AwaitStopped ''B'', Dump,
              Shutdown ''A'', Shutdown ''B''])"
proof -
  define a where "a = \<lparr>running = True, state = Running, wanted = True, shutdown_flag = False,
              evt = \<lparr>deadline = 0, event = False\<rparr>\<rparr>"
  define b where "b = new_service 0"
  define m where "m = \<lparr>svcs = [(''A'', a), (''B'', b)], refs = [(''A'', 1), (''B'', 0)], calls = []\<rparr>"
  define p where "p = \<lparr>p_reset = 1, p_wait = 1, p_woken = Timeout, p_check = 2,
              p_others = (\<lambda>s::service. s\<lparr>state := Stopped\<rparr>)\<rparr>"
  have counted: "list_all (\<lambda>name. refcount m name \<noteq> None) (names m)"
    by (simp add: m_def names_def refcount_def)
  have ret: "fst (atexit (\<lambda>n. [p]) (\<lambda>n. []) m) = Return ()"
    by (simp add: atexit_def dump_def names_def logged_def stored_def Let_def m_def a_def b_def
        p_def new_service_def new_holdoff_def stop_def signal_def after_idle_def idle_def
        wait_def remaining_def passed_def event_wait_def reset_def tenths_def shutdown_def
        halt_def)
  have sq: "shutdown_sequence m = [Dump, TraceAllThreads, Stop ''A'', Dump,
              TraceThread ''A'', AwaitStopped ''A'', TraceThread ''B'', AwaitStopped ''B'', Dump,
              Shutdown ''A'', Shutdown ''B'']"
    by (simp add: shutdown_sequence_def unstopped_def names_def m_def a_def b_def new_service_def)
  from C7_atexit_order [OF counted, of "\<lambda>n. [p]" "\<lambda>n. []" "''A''" "''C''" b] ret sq counted
  show ?thesis
    by (simp add: Let_def m_def a_def b_def p_def)
qed

end
